theory Spec2Isabelle
  imports Complex_Main "HOL-Library.Sublist"
begin

section \<open>Text and character classes\<close>

text \<open>
  A Python \<open>str\<close> is modelled as a \<open>string\<close>, each \<open>char\<close> being read as the code point
  of the same number (U+0000 to U+00FF). The character classes below are the ones the
  regular expressions of \<open>job_apply_assistant.py\<close> and \<open>replit_app.py\<close> use, restricted
  to that range: \<open>[A-Za-z]\<close>, \<open>[A-Za-z0-9+.#/\-]\<close>, \<open>\d\<close> and \<open>\s\<close>.
\<close>

definition code :: "char \<Rightarrow> nat" where
  "code c = of_char c"

definition is_upper :: "char \<Rightarrow> bool" where
  "is_upper c \<longleftrightarrow> 65 \<le> code c \<and> code c \<le> 90"

definition is_lower :: "char \<Rightarrow> bool" where
  "is_lower c \<longleftrightarrow> 97 \<le> code c \<and> code c \<le> 122"

definition is_letter :: "char \<Rightarrow> bool" where
  "is_letter c \<longleftrightarrow> is_upper c \<or> is_lower c"

definition is_digit :: "char \<Rightarrow> bool" where
  "is_digit c \<longleftrightarrow> 48 \<le> code c \<and> code c \<le> 57"

text \<open>The class \<open>[A-Za-z0-9+.#/\-]\<close> of \<open>TOKEN_RE\<close>.\<close>

definition is_token_char :: "char \<Rightarrow> bool" where
  "is_token_char c \<longleftrightarrow> is_letter c \<or> is_digit c \<or> c \<in> set ''+.#/-''"

text \<open>
  \<open>\s\<close> on a \<open>str\<close> pattern, and the characters \<open>str.strip()\<close> removes: tab, line feed,
  vertical tab, form feed, carriage return, the separators U+001C to U+001F, space,
  U+0085 and U+00A0.
\<close>

definition is_space :: "char \<Rightarrow> bool" where
  "is_space c \<longleftrightarrow> (9 \<le> code c \<and> code c \<le> 13) \<or> (28 \<le> code c \<and> code c \<le> 32)
     \<or> code c = 133 \<or> code c = 160"

text \<open>
  \<open>str.lower()\<close>, character by character: the letters A to Z and the upper-case letters
  of U+00C0 to U+00DE (all but the multiplication sign U+00D7) move up by 32.
\<close>

definition lower_char :: "char \<Rightarrow> char" where
  "lower_char c =
     (if is_upper c \<or> (192 \<le> code c \<and> code c \<le> 222 \<and> code c \<noteq> 215)
      then char_of (code c + 32) else c)"

definition lower :: "string \<Rightarrow> string" where
  "lower s = map lower_char s"

section \<open>The tokenizer\<close>

definition STOPWORDS :: "string set" where
  "STOPWORDS = set [''the'', ''and'', ''for'', ''with'', ''you'', ''your'', ''our'', ''are'',
     ''this'', ''that'', ''will'', ''have'', ''has'', ''in'', ''of'', ''to'', ''on'', ''a'',
     ''an'', ''is'', ''be'', ''as'', ''at'', ''or'', ''we'', ''by'', ''it'', ''from'',
     ''their'', ''they'', ''his'', ''her'', ''he'', ''she'']"

text \<open>
  \<open>TOKEN_RE.findall(text)\<close> for \<open>TOKEN_RE = [A-Za-z][A-Za-z0-9+.#/\-]{1,}\<close>: scanning from
  the left, a letter followed by at least one character of the class starts a match, which
  takes the whole run of class characters; the scan goes on after the match. Anywhere else
  the scan moves one character on.
\<close>

function TOKEN_RE_findall :: "string \<Rightarrow> string list" where
  "TOKEN_RE_findall [] = []"
| "TOKEN_RE_findall (c # cs) =
     (if is_letter c \<and> takeWhile is_token_char cs \<noteq> []
      then (c # takeWhile is_token_char cs) # TOKEN_RE_findall (dropWhile is_token_char cs)
      else TOKEN_RE_findall cs)"
  by pat_completeness auto
termination
  by (relation "measure length") (auto simp: length_dropWhile_le less_Suc_eq_le)

definition tokens :: "string \<Rightarrow> string list" where
  "tokens text = [lower t. t \<leftarrow> TOKEN_RE_findall text, lower t \<notin> STOPWORDS]"

section \<open>The years pattern\<close>

text \<open>
  One attempt of the pattern \<open>(\d+)\s+years\<close> at the start of a text. The greedy \<open>\d+\<close>
  takes the whole run of digits and the greedy \<open>\s+\<close> the whole run of white space;
  giving characters back cannot help, as the character after a shorter run is again a
  digit, or white space. A match returns group 1 and the text after the match.
\<close>

definition match_years :: "string \<Rightarrow> (string \<times> string) option" where
  "match_years s =
     (let ds = takeWhile is_digit s; r1 = dropWhile is_digit s;
          ws = takeWhile is_space r1; r2 = dropWhile is_space r1
      in if ds \<noteq> [] \<and> ws \<noteq> [] \<and> prefix ''years'' r2 then Some (ds, drop 5 r2) else None)"

lemma match_years_shorter: "match_years s = Some (g, r) \<Longrightarrow> length r < length s"
proof -
  assume m: "match_years s = Some (g, r)"
  have ne: "takeWhile is_digit s \<noteq> []" and r: "r = drop 5 (dropWhile is_space (dropWhile is_digit s))"
    using m by (auto simp: match_years_def Let_def split: if_splits)
  have "length r \<le> length (dropWhile is_digit s)"
    unfolding r by (simp add: length_dropWhile_le le_diff_conv trans_le_add1)
  moreover have "length (dropWhile is_digit s) < length s"
    using ne by (cases s) (auto simp: length_dropWhile_le less_Suc_eq_le split: if_splits)
  ultimately show ?thesis by simp
qed

text \<open>\<open>re.findall(r"(\d+)\s+years", s)\<close>: the list of the digit groups, from left to right.\<close>

function findall_years :: "string \<Rightarrow> string list" where
  "findall_years [] = []"
| "findall_years (c # cs) =
     (case match_years (c # cs) of
        Some (g, r) \<Rightarrow> g # findall_years r
      | None \<Rightarrow> findall_years cs)"
  by pat_completeness auto
termination
  by (relation "measure length") (auto dest: match_years_shorter)

section \<open>Python floats\<close>

text \<open>
  A Python \<open>float\<close> is an IEEE 754 binary64 number. It is modelled by its exact value, a
  rational, and every operation rounds its exact result to the nearest number with a
  53-bit significand, ties to the even significand, as the hardware does. The exponent is
  not bounded here: a CPython string has fewer than \<open>2\<^sup>6\<^sup>3\<close> characters, so the non-zero
  magnitudes the scorer computes lie between \<open>2\<^sup>-\<^sup>6\<^sup>3\<close> and \<open>2\<^sup>7\<close>, far inside the
  range of binary64, where neither overflow nor subnormal numbers occur.
\<close>

type_synonym pyfloat = rat

fun bit_length :: "nat \<Rightarrow> nat" where
  "bit_length n = (if n = 0 then 0 else Suc (bit_length (n div 2)))"

declare bit_length.simps [simp del]

text \<open>For \<open>x > 0\<close>, \<open>ilog2 x\<close> is the exponent \<open>e\<close> with \<open>2\<^sup>e \<le> x < 2\<^sup>e\<^sup>+\<^sup>1\<close>.\<close>

definition ilog2 :: "rat \<Rightarrow> int" where
  "ilog2 x = (if 1 \<le> x then int (bit_length (nat \<lfloor>x\<rfloor>)) - 1
              else - int (bit_length (nat (\<lceil>1 / x\<rceil> - 1))))"

text \<open>Rounding to the nearest integer, ties to the even one: Python's \<open>round(x)\<close>.\<close>

definition round_half_even :: "rat \<Rightarrow> int" where
  "round_half_even x =
     (let f = \<lfloor>x\<rfloor>; d = x - of_int f
      in if d < 1 / 2 then f else if 1 / 2 < d then f + 1 else if even f then f else f + 1)"

definition to_double :: "rat \<Rightarrow> pyfloat" where
  "to_double x =
     (if x = 0 then 0
      else let u = 2 powi (ilog2 \<bar>x\<bar> - 52)
           in sgn x * of_int (round_half_even (\<bar>x\<bar> / u)) * u)"

definition float_of_int :: "int \<Rightarrow> pyfloat" where
  "float_of_int i = to_double (of_int i)"

definition fmul :: "pyfloat \<Rightarrow> pyfloat \<Rightarrow> pyfloat" where
  "fmul x y = to_double (x * y)"

definition fadd :: "pyfloat \<Rightarrow> pyfloat \<Rightarrow> pyfloat" where
  "fadd x y = to_double (x + y)"

datatype py_error = ZeroDivisionError | ValueError

text \<open>\<open>a / b\<close> on two \<open>int\<close>s: the correctly rounded quotient, or \<open>ZeroDivisionError\<close>.\<close>

definition truediv :: "int \<Rightarrow> int \<Rightarrow> py_error + pyfloat" where
  "truediv a b = (if b = 0 then Inl ZeroDivisionError else Inr (to_double (of_int a / of_int b)))"

definition py_round :: "pyfloat \<Rightarrow> int" where
  "py_round x = round_half_even x"

text \<open>The literals \<open>0.4\<close>, \<open>0.2\<close>, \<open>0.1\<close> and \<open>0.3\<close>: the doubles nearest to the decimals.\<close>

definition lit_0_4 :: pyfloat where "lit_0_4 = to_double (4 / 10)"
definition lit_0_2 :: pyfloat where "lit_0_2 = to_double (2 / 10)"
definition lit_0_1 :: pyfloat where "lit_0_1 = to_double (1 / 10)"
definition lit_0_3 :: pyfloat where "lit_0_3 = to_double (3 / 10)"

section \<open>The fit scorer\<close>

definition SENIORITY :: "string list" where
  "SENIORITY = [''intern'', ''junior'', ''associate'', ''mid'', ''senior'', ''lead'',
     ''principal'', ''director'', ''vp'', ''chief'']"

text \<open>
  \<open>compute_fit_score\<close> of \<open>job_apply_assistant.py\<close>; the copies in \<open>replit_app.py\<close> and
  \<open>replit_job_apply_assistant.py\<close> are the same text. The result is the pair of the total
  and the breakdown dictionary; an exception is a value \<open>Inl\<close>.
\<close>

definition compute_fit_score :: "string \<Rightarrow> string \<Rightarrow> py_error + int \<times> (string \<rightharpoonup> int)" where
  "compute_fit_score jd_text resume_md =
     (let jd_tokens = set (tokens jd_text);
          res_tokens = set (tokens resume_md)
      in if jd_tokens = {} then Inr (0, Map.empty)
         else
           let overlap = jd_tokens \<inter> res_tokens
           in case truediv (int (card overlap)) (int (card jd_tokens)) of
                Inl err \<Rightarrow> Inl err
              | Inr coverage \<Rightarrow>
                  let keyword_score = py_round (fmul coverage (float_of_int 100));
                      jd_sen = [s \<leftarrow> SENIORITY. s \<in> jd_tokens];
                      res_sen = [s \<leftarrow> SENIORITY. s \<in> res_tokens];
                      seniority_match =
                        (if (jd_sen \<noteq> [] \<and> list_ex (\<lambda>s. s \<in> set res_sen) jd_sen) \<or> jd_sen = []
                         then 100 else 40);
                      jd_years = findall_years (lower jd_text);
                      res_years = findall_years (lower resume_md);
                      numeric_match =
                        (if jd_years = [] then 100 else if res_years \<noteq> [] then 80 else 30);
                      total = py_round
                        (fadd
                          (fadd
                            (fadd (fmul (float_of_int keyword_score) lit_0_4)
                                  (fmul (float_of_int seniority_match) lit_0_2))
                            (fmul (float_of_int numeric_match) lit_0_1))
                          (fmul (fmul lit_0_3 (float_of_int 100))
                                (float_of_int (if 0 < card overlap then 1 else 0))));
                      breakdown = [''keyword_coverage'' \<mapsto> keyword_score,
                                   ''seniority'' \<mapsto> seniority_match,
                                   ''numeric'' \<mapsto> numeric_match,
                                   ''overall'' \<mapsto> total]
                  in Inr (total, breakdown))"

text \<open>
  The sub-expressions of \<open>compute_fit_score\<close>, named for the proofs: the keyword score as
  a function of the two cardinalities, the weighted total as a function of the three
  sub-scores and the size of the overlap, the seniority and numeric sub-scores, and the
  breakdown dictionary.
\<close>

definition keyword_score_of :: "nat \<Rightarrow> nat \<Rightarrow> int" where
  "keyword_score_of a b =
     py_round (fmul (to_double (of_int (int a) / of_int (int b))) (float_of_int 100))"

definition total_of :: "int \<Rightarrow> int \<Rightarrow> int \<Rightarrow> nat \<Rightarrow> int" where
  "total_of k s n ov =
     py_round
       (fadd
         (fadd
           (fadd (fmul (float_of_int k) lit_0_4) (fmul (float_of_int s) lit_0_2))
           (fmul (float_of_int n) lit_0_1))
         (fmul (fmul lit_0_3 (float_of_int 100)) (float_of_int (if 0 < ov then 1 else 0))))"

definition seniority_of :: "string set \<Rightarrow> string set \<Rightarrow> int" where
  "seniority_of jd_tokens res_tokens =
     (let jd_sen = [s \<leftarrow> SENIORITY. s \<in> jd_tokens];
          res_sen = [s \<leftarrow> SENIORITY. s \<in> res_tokens]
      in if (jd_sen \<noteq> [] \<and> list_ex (\<lambda>s. s \<in> set res_sen) jd_sen) \<or> jd_sen = []
         then 100 else 40)"

definition numeric_of :: "string \<Rightarrow> string \<Rightarrow> int" where
  "numeric_of jd_text resume_md =
     (if findall_years (lower jd_text) = [] then 100
      else if findall_years (lower resume_md) \<noteq> [] then 80 else 30)"

definition breakdown_of :: "int \<Rightarrow> int \<Rightarrow> int \<Rightarrow> int \<Rightarrow> (string \<rightharpoonup> int)" where
  "breakdown_of k s n t =
     [''keyword_coverage'' \<mapsto> k, ''seniority'' \<mapsto> s, ''numeric'' \<mapsto> n, ''overall'' \<mapsto> t]"

text \<open>The two texts of the end-to-end scenario.\<close>

definition scenario_job :: string where
  "scenario_job = ''Senior Python Engineer. 5 years experience with Python and AWS required.''"

definition scenario_resume :: string where
  "scenario_resume = ''Senior engineer with 6 years experience in Python and AWS.''"



section \<open>The years figure of the pattern, in words\<close>

text \<open>
  What the pattern \<open>(\d+)\s+years\<close> finds in a text put in lower case, said without the
  pattern: a digit, then one or more characters of white space, then five letters that are
  the word years once put in lower case. Nothing is asked of what follows the five letters.
\<close>

definition years_figure :: "string \<Rightarrow> bool" where
  "years_figure text \<longleftrightarrow>
     (\<exists>pre d ws w post. text = pre @ [d] @ ws @ w @ post \<and> is_digit d \<and> ws \<noteq> []
        \<and> (\<forall>c \<in> set ws. is_space c) \<and> lower w = ''years'')"

section \<open>The years figure of the specification\<close>

text \<open>
  The figure as the specification words it, a digit sequence followed by the word years in
  any letter case: at the start of \<open>s\<close> stands a non-empty run of digits, then white
  space or none, then the five letters of years, and the word ends there (no letter and no
  digit follows). A text mentions a figure when one of its suffixes starts with one.
\<close>

definition figure_at :: "string \<Rightarrow> bool" where
  "figure_at s =
     (let r = dropWhile is_space (dropWhile is_digit s)
      in takeWhile is_digit s \<noteq> [] \<and> lower (take 5 r) = ''years''
         \<and> (case drop 5 r of [] \<Rightarrow> True | c # _ \<Rightarrow> \<not> is_letter c \<and> \<not> is_digit c))"

definition spec_mentions_years :: "string \<Rightarrow> bool" where
  "spec_mentions_years text = list_ex figure_at (suffixes text)"

section \<open>Whole words\<close>


section \<open>The text extractor\<close>

text \<open>\<open>str.strip()\<close>: white space is removed at both ends.\<close>

definition strip :: "string \<Rightarrow> string" where
  "strip s = rev (dropWhile is_space (rev (dropWhile is_space s)))"

text \<open>\<open>re.sub(r"\s+", " ", text)\<close>: every maximal run of white space becomes one space.\<close>

function sub_spaces :: "string \<Rightarrow> string" where
  "sub_spaces [] = []"
| "sub_spaces (c # cs) =
     (if is_space c then CHR '' '' # sub_spaces (dropWhile is_space cs) else c # sub_spaces cs)"
  by pat_completeness auto
termination
  by (relation "measure length") (auto simp: length_dropWhile_le less_Suc_eq_le)

definition strip_html :: "string \<Rightarrow> string" where
  "strip_html text = strip (sub_spaces text)"

text \<open>
  A parsed page is the list of its strings in document order. \<open>Visible\<close> is text of an
  element; \<open>Hidden\<close> is a comment, a declaration or the content of a script or style
  element, which \<open>find_all(string=True)\<close> returns and \<open>get_text\<close> leaves out.
\<close>

datatype text_node = Visible string | Hidden string

fun node_string :: "text_node \<Rightarrow> string" where
  "node_string (Visible s) = s"
| "node_string (Hidden s) = s"

fun visible_strings :: "text_node list \<Rightarrow> string list" where
  "visible_strings [] = []"
| "visible_strings (Visible s # ns) = s # visible_strings ns"
| "visible_strings (Hidden s # ns) = visible_strings ns"

text \<open>\<open>separator.join(strings)\<close>.\<close>

fun join :: "string \<Rightarrow> string list \<Rightarrow> string" where
  "join sep [] = []"
| "join sep [x] = x"
| "join sep (x # y # ys) = x @ sep @ join sep (y # ys)"

text \<open>
  \<open>soup.get_text(separator, strip=True)\<close>: every visible string is stripped, the empty
  ones are dropped, and the rest is joined with the separator.
\<close>

definition get_text :: "string \<Rightarrow> text_node list \<Rightarrow> string" where
  "get_text sep nodes = join sep [strip s. s \<leftarrow> visible_strings nodes, strip s \<noteq> []]"

text \<open>
  \<open>text.split(sep)\<close>: the pieces between the occurrences of the separator, found from the
  left without overlap; an empty separator raises \<open>ValueError\<close>.
\<close>

function split_from :: "string \<Rightarrow> string \<Rightarrow> string \<Rightarrow> string list" where
  "split_from sep cur [] = [rev cur]"
| "split_from sep cur (c # cs) =
     (if sep \<noteq> [] \<and> prefix sep (c # cs)
      then rev cur # split_from sep [] (drop (length sep) (c # cs))
      else split_from sep (c # cur) cs)"
  by pat_completeness auto
termination
  by (relation "measure (\<lambda>(sep, cur, s). length s)") auto

definition split :: "string \<Rightarrow> string \<Rightarrow> py_error + string list" where
  "split text sep = (if sep = [] then Inl ValueError else Inr (split_from sep [] text))"

text \<open>\<open>max(xs, key=len)\<close>: the first of the longest elements; \<open>ValueError\<close> on no element.\<close>

fun max_by_len :: "string \<Rightarrow> string list \<Rightarrow> string" where
  "max_by_len best [] = best"
| "max_by_len best (x # xs) =
     (if length best < length x then max_by_len x xs else max_by_len best xs)"

definition max_len :: "string list \<Rightarrow> py_error + string" where
  "max_len xs = (case xs of [] \<Rightarrow> Inl ValueError | x # ys \<Rightarrow> Inr (max_by_len x ys))"

definition newline :: string where
  "newline = [CHR 0x0A]"

text \<open>
  The fallback of \<open>fetch_job_description\<close> in \<open>job_apply_assistant.py\<close> (lines 180 to 188),
  for a source that is not a LinkedIn address: \<open>soup\<close> is the list of the strings of the
  summary that the readability library returns, parsed.
\<close>

definition fetch_job_description_fallback :: "text_node list \<Rightarrow> py_error + string" where
  "fetch_job_description_fallback soup =
     (let candidates = [el \<leftarrow> map node_string soup. 100 < length el]
      in if candidates = [] then Inr (strip_html (get_text newline soup))
         else case max_len candidates of
                Inl err \<Rightarrow> Inl err
              | Inr best \<Rightarrow> Inr (strip_html best))"

text \<open>
  The fallback of \<open>fetch_job_description\<close> in \<open>replit_app.py\<close> (lines 121 to 132), for a
  source that is not a LinkedIn address: \<open>soup\<close> is the list of the strings of the parsed
  page once the script and style elements are taken out.
\<close>

definition replit_fetch_job_description_fallback :: "text_node list \<Rightarrow> py_error + string" where
  "replit_fetch_job_description_fallback soup =
     (let text = get_text newline soup
      in case split text (newline @ newline) of
           Inl err \<Rightarrow> Inl err
         | Inr paragraphs \<Rightarrow>
             if paragraphs \<noteq> []
             then case max_len paragraphs of
                    Inl err \<Rightarrow> Inl err
                  | Inr largest_paragraph \<Rightarrow>
                      if 100 < length largest_paragraph then Inr (strip_html largest_paragraph)
                      else Inr (strip_html text)
             else Inr (strip_html text))"

text \<open>No two line feeds in a row: the text holds no blank line.\<close>

fun blank_line_free :: "string \<Rightarrow> bool" where
  "blank_line_free [] \<longleftrightarrow> True"
| "blank_line_free [c] \<longleftrightarrow> True"
| "blank_line_free (a # b # cs) \<longleftrightarrow>
     \<not> (a = CHR 0x0A \<and> b = CHR 0x0A) \<and> blank_line_free (b # cs)"

text \<open>
  A page of three paragraphs, \<open><p>A...A</p><p>Apply now</p><p>Remote</p>\<close>, the first of 500
  characters.
\<close>

definition fixture_page :: "text_node list" where
  "fixture_page = [Visible (replicate 500 CHR ''A''), Visible ''Apply now'', Visible ''Remote'']"

section \<open>Rounding: the error of one floating-point operation\<close>

lemma bit_length_lower: "0 < n \<Longrightarrow> 2 ^ (bit_length n - 1) \<le> n"
proof (induction n rule: bit_length.induct)
  case (1 n)
  show ?case
  proof (cases "n div 2 = 0")
    case True
    then show ?thesis using "1.prems" by (simp add: bit_length.simps [of n] bit_length.simps [of 0])
  next
    case False
    then have "2 ^ (bit_length (n div 2) - 1) \<le> n div 2" using 1 by simp
    moreover have "bit_length (n div 2) \<noteq> 0" using False by (simp add: bit_length.simps [of "n div 2"])
    ultimately have "2 ^ bit_length (n div 2) \<le> 2 * (n div 2)"
      by (cases "bit_length (n div 2)") auto
    then show ?thesis using "1.prems" by (simp add: bit_length.simps [of n])
  qed
qed

lemma bit_length_upper: "n < 2 ^ bit_length n"
proof (induction n rule: bit_length.induct)
  case (1 n)
  show ?case
  proof (cases "n = 0")
    case True
    then show ?thesis by (simp add: bit_length.simps [of 0])
  next
    case False
    then have "n div 2 < 2 ^ bit_length (n div 2)" using 1 by simp
    then have "n < 2 * 2 ^ bit_length (n div 2)" by linarith
    then show ?thesis using False by (simp add: bit_length.simps [of n])
  qed
qed

lemma bit_length_pos: "0 < n \<Longrightarrow> 0 < bit_length n"
  by (simp add: bit_length.simps [of n])

lemma ilog2_lower:
  assumes "0 < x"
  shows "2 powi (ilog2 x) \<le> x"
proof (cases "1 \<le> x")
  case True
  define n where "n = nat \<lfloor>x\<rfloor>"
  have n: "0 < n" "rat_of_nat n \<le> x"
    using True by (auto simp: n_def) 
  have "ilog2 x = int (bit_length n - 1)"
    using True bit_length_pos [OF n(1)] by (simp add: ilog2_def n_def)
  then have "2 powi (ilog2 x) = (2::rat) ^ (bit_length n - 1)"
    by simp
  also have "\<dots> = rat_of_nat (2 ^ (bit_length n - 1))" by simp
  also have "\<dots> \<le> rat_of_nat n" using bit_length_lower [OF n(1)] 
    using of_nat_le_iff by blast
  finally show ?thesis using n(2) by simp
next
  case False
  define m where "m = nat (\<lceil>1 / x\<rceil> - 1)"
  have "1 < 1 / x" using False assms by simp
  then have c: "2 \<le> \<lceil>1 / x\<rceil>" by linarith
  have cm: "\<lceil>1 / x\<rceil> = int m + 1" unfolding m_def using c by linarith
  have "m < 2 ^ bit_length m" by (rule bit_length_upper)
  then have "int m + 1 \<le> 2 ^ bit_length m"
    by (metis Suc_leI of_nat_Suc of_nat_le_iff of_nat_numeral of_nat_power add.commute)
  then have "rat_of_int \<lceil>1 / x\<rceil> \<le> 2 ^ bit_length m"
    unfolding cm by (metis of_int_le_iff of_int_numeral of_int_power)
  moreover have "1 / x \<le> of_int \<lceil>1 / x\<rceil>" by simp
  ultimately have "1 / x \<le> 2 ^ bit_length m" by linarith
  then have "1 \<le> 2 ^ bit_length m * x" using assms by (simp add: field_simps)
  then have "1 / 2 ^ bit_length m \<le> x" by (simp add: field_simps)
  moreover have "ilog2 x = - int (bit_length m)" using False by (simp add: ilog2_def m_def)
  ultimately show ?thesis by (simp add: power_int_minus field_simps)
qed

lemma round_half_even_le: "x < of_int n + 1 / 2 \<Longrightarrow> round_half_even x \<le> n"
proof -
  assume a: "x < of_int n + 1 / 2"
  have f: "of_int \<lfloor>x\<rfloor> \<le> x" "x < of_int \<lfloor>x\<rfloor> + 1" by linarith+
  have "\<lfloor>x\<rfloor> \<le> n" using a f by linarith
  moreover have "1 / 2 \<le> x - of_int \<lfloor>x\<rfloor> \<Longrightarrow> \<lfloor>x\<rfloor> + 1 \<le> n"
  proof -
    assume "1 / 2 \<le> x - of_int \<lfloor>x\<rfloor>"
    then have "rat_of_int \<lfloor>x\<rfloor> < of_int n" using a by linarith
    then show ?thesis by simp
  qed
  ultimately show ?thesis
    by (auto simp: round_half_even_def Let_def)
qed

lemma round_half_even_ge: "of_int n - 1 / 2 < x \<Longrightarrow> n \<le> round_half_even x"
proof -
  assume a: "of_int n - 1 / 2 < x"
  have f: "of_int \<lfloor>x\<rfloor> \<le> x" "x < of_int \<lfloor>x\<rfloor> + 1" by linarith+
  have "rat_of_int n < of_int \<lfloor>x\<rfloor> + 3 / 2" using a f by linarith
  then have "rat_of_int n < of_int (\<lfloor>x\<rfloor> + 2)" by simp
  then have n1: "n \<le> \<lfloor>x\<rfloor> + 1" by (simp only: of_int_less_iff)
  moreover have "x - of_int \<lfloor>x\<rfloor> \<le> 1 / 2 \<Longrightarrow> n \<le> \<lfloor>x\<rfloor>"
  proof -
    assume "x - of_int \<lfloor>x\<rfloor> \<le> 1 / 2"
    then have "rat_of_int n < of_int (\<lfloor>x\<rfloor> + 1)" using a by simp
    then show ?thesis by (simp only: of_int_less_iff)
  qed
  ultimately show ?thesis
    by (auto simp: round_half_even_def Let_def)
qed

lemma round_half_even_eq:
  "of_int n - 1 / 2 < x \<Longrightarrow> x < of_int n + 1 / 2 \<Longrightarrow> round_half_even x = n"
  by (simp add: round_half_even_le round_half_even_ge order_antisym)

lemma round_half_even_close: "\<bar>of_int (round_half_even x) - x\<bar> \<le> 1 / 2"
proof -
  have f: "of_int \<lfloor>x\<rfloor> \<le> x" "x < of_int \<lfloor>x\<rfloor> + 1" by linarith+
  then show ?thesis
    by (auto simp: round_half_even_def Let_def abs_le_iff)
qed

lemma to_double_close: "\<bar>to_double x - x\<bar> \<le> \<bar>x\<bar> / 2 ^ 53"
proof (cases "x = 0")
  case True
  then show ?thesis by (simp add: to_double_def)
next
  case False
  define u :: rat where "u = 2 powi (ilog2 \<bar>x\<bar> - 52)"
  define r where "r = round_half_even (\<bar>x\<bar> / u)"
  have u: "0 < u" by (simp add: u_def)
  have td: "to_double x = sgn x * (of_int r * u)"
    using False by (simp add: to_double_def Let_def u_def r_def)
  have "x = sgn x * \<bar>x\<bar>" by (simp add: mult.commute abs_sgn)
  then have "to_double x - x = sgn x * (of_int r * u - \<bar>x\<bar>)"
    unfolding td by (metis right_diff_distrib)
  then have "\<bar>to_double x - x\<bar> = \<bar>of_int r * u - \<bar>x\<bar>\<bar>"
    using False by (simp add: abs_mult)
  also have "of_int r * u - \<bar>x\<bar> = (of_int r - \<bar>x\<bar> / u) * u"
    using u by (simp add: field_simps)
  also have "\<bar>\<dots>\<bar> = \<bar>of_int r - \<bar>x\<bar> / u\<bar> * u"
    using u by (simp add: abs_mult)
  also have "\<dots> \<le> 1 / 2 * u"
    using round_half_even_close [of "\<bar>x\<bar> / u"] u unfolding r_def
    by (intro mult_right_mono) auto
  also have "u = 2 powi (ilog2 \<bar>x\<bar>) / 2 ^ 52"
    unfolding u_def by (simp add: power_int_diff)
  also have "1 / 2 * (2 powi (ilog2 \<bar>x\<bar>) / 2 ^ 52) = 2 powi (ilog2 \<bar>x\<bar>) / (2 ^ 53 :: rat)"
    by simp
  also have "\<dots> \<le> \<bar>x\<bar> / 2 ^ 53"
    using ilog2_lower [of "\<bar>x\<bar>"] False by (simp add: divide_right_mono)
  finally show ?thesis .
qed

lemma ilog2_upper:
  assumes "0 < x"
  shows "x < 2 powi (ilog2 x + 1)"
proof (cases "1 \<le> x")
  case True
  define n where "n = nat \<lfloor>x\<rfloor>"
  have n: "0 < n" "x < rat_of_nat n + 1"
    using True unfolding n_def by (simp, linarith)
  have "ilog2 x + 1 = int (bit_length n)"
    using True by (simp add: ilog2_def n_def)
  then have "2 powi (ilog2 x + 1) = (2::rat) ^ bit_length n" by simp
  moreover have "n + 1 \<le> 2 ^ bit_length n" using bit_length_upper [of n] by simp
  then have "rat_of_nat (n + 1) \<le> rat_of_nat (2 ^ bit_length n)" by (simp only: of_nat_le_iff)
  then have "rat_of_nat n + 1 \<le> 2 ^ bit_length n" by simp
  ultimately show ?thesis using n(2) by simp
next
  case False
  define m where "m = nat (\<lceil>1 / x\<rceil> - 1)"
  have "1 < 1 / x" using False assms by simp
  then have c: "2 \<le> \<lceil>1 / x\<rceil>" by linarith
  then have m: "0 < m" "int m = \<lceil>1 / x\<rceil> - 1" unfolding m_def by linarith+
  have "rat_of_int (\<lceil>1 / x\<rceil> - 1) < 1 / x" by linarith
  then have mx: "rat_of_nat m < 1 / x" using m(2) by (metis of_int_of_nat_eq)
  have "2 ^ (bit_length m - 1) \<le> m" using m(1) by (rule bit_length_lower)
  then have "rat_of_nat (2 ^ (bit_length m - 1)) \<le> rat_of_nat m" by (simp only: of_nat_le_iff)
  then have "rat_of_nat (2 ^ (bit_length m - 1)) < 1 / x" using mx by (rule le_less_trans)
  then have "2 ^ (bit_length m - 1) < 1 / x" by simp
  then have "x * 2 ^ (bit_length m - 1) < 1" using assms by (simp add: field_simps)
  then have "x < 1 / 2 ^ (bit_length m - 1)" by (simp add: field_simps)
  moreover have "ilog2 x + 1 = - int (bit_length m - 1)"
    using False bit_length_pos [OF m(1)] by (simp add: ilog2_def m_def)
  ultimately show ?thesis by (simp add: power_int_minus field_simps)
qed

text \<open>The significand that \<open>to_double\<close> rounds has 53 bits.\<close>

lemma to_double_significand:
  assumes "0 < x"
  shows "2 ^ 52 \<le> x / 2 powi (ilog2 x - 52)" "x / 2 powi (ilog2 x - 52) < 2 ^ 53"
proof -
  define q where "q = x / 2 powi (ilog2 x)"
  have "x / 2 powi (ilog2 x - 52) = q * 4503599627370496"
    unfolding q_def by (simp add: power_int_diff)
  moreover have "1 \<le> q"
    unfolding q_def using ilog2_lower [OF assms] by simp
  moreover have "q < 2"
    unfolding q_def using ilog2_upper [OF assms] by (simp add: power_int_add divide_less_eq)
  ultimately show "2 ^ 52 \<le> x / 2 powi (ilog2 x - 52)" "x / 2 powi (ilog2 x - 52) < 2 ^ 53"
    by simp_all
qed

lemma round_half_even_of_int: "round_half_even (of_int m) = m"
  by (simp add: round_half_even_def)

lemma to_double_of_int:
  assumes "\<bar>k\<bar> < 2 ^ 53"
  shows "to_double (of_int k) = of_int k"
proof (cases "k = 0")
  case True
  then show ?thesis by (simp add: to_double_def)
next
  case False
  define x :: rat where "x = \<bar>of_int k\<bar>"
  define e where "e = ilog2 x"
  have x: "0 < x" "x < 2 ^ 53" "x = of_int \<bar>k\<bar>"
    using False assms unfolding x_def 
    by (simp_all add: of_int_abs [symmetric] del: of_int_abs)
  have "2 powi e \<le> x" unfolding e_def using x(1) by (rule ilog2_lower)
  then have "(2::rat) powi e < 2 powi 53" using x(2) by simp
  then have "e < 53" by (rule power_int_le_imp_less_exp [rotated]) simp_all
  then have e: "e \<le> 52" by simp
  define j where "j = nat (52 - e)"
  have u: "(2::rat) powi (e - 52) = 1 / 2 ^ j"
    using e by (simp add: j_def power_int_def field_simps)
  have "x / (1 / 2 ^ j) = of_int (\<bar>k\<bar> * 2 ^ j)" by (simp add: x(3))
  then have r: "round_half_even (x / (1 / 2 ^ j)) = \<bar>k\<bar> * 2 ^ j"
    by (simp only: round_half_even_of_int)
  have "to_double (of_int k) = sgn (of_int k) * of_int (\<bar>k\<bar> * 2 ^ j) * (1 / 2 ^ j)"
    using False unfolding to_double_def Let_def x_def [symmetric] e_def [symmetric] u r by simp
  also have "\<dots> = sgn (of_int k) * \<bar>of_int k\<bar>" by simp
  also have "\<dots> = of_int k" by (rule sgn_mult_abs)
  finally show ?thesis .
qed

lemma to_double_bound:
  assumes "\<bar>x\<bar> \<le> B"
  shows "x - B / 9007199254740992 \<le> to_double x" "to_double x \<le> x + B / 9007199254740992"
proof -
  have "\<bar>to_double x - x\<bar> \<le> \<bar>x\<bar> / 9007199254740992"
    using to_double_close [of x] by simp
  also have "\<dots> \<le> B / 9007199254740992"
    using assms by (simp add: divide_right_mono)
  finally have "\<bar>to_double x - x\<bar> \<le> B / 9007199254740992" .
  then show "x - B / 9007199254740992 \<le> to_double x" "to_double x \<le> x + B / 9007199254740992"
    by (simp_all only: abs_le_iff) linarith+
qed

lemma float_of_int_exact: "\<bar>k\<bar> < 2 ^ 53 \<Longrightarrow> float_of_int k = of_int k"
  by (simp add: float_of_int_def to_double_of_int)

lemma lit_values:
  "lit_0_4 = 3602879701896397 / 9007199254740992"
  "lit_0_2 = 3602879701896397 / 18014398509481984"
  "lit_0_1 = 3602879701896397 / 36028797018963968"
  "lit_0_3 = 5404319552844595 / 18014398509481984"
  by code_simp+

lemma bonus_value: "fmul lit_0_3 (float_of_int 100) = 30"
  by code_simp

lemma round_fifths:
  assumes "\<bar>r - of_int m / 5\<bar> < 1 / 10"
  shows "round_half_even r = (m + 2) div 5"
proof (rule round_half_even_eq)
  define n where "n = (m + 2) div 5"
  have "5 * n - 2 \<le> m" "m \<le> 5 * n + 2" unfolding n_def by presburger+
  then have "rat_of_int (5 * n - 2) \<le> of_int m" "rat_of_int m \<le> of_int (5 * n + 2)"
    by (simp_all only: of_int_le_iff)
  then have "\<bar>of_int m / 5 - rat_of_int n\<bar> \<le> 2 / 5"
    by (simp add: abs_le_iff field_simps)
  then show "rat_of_int ((m + 2) div 5) - 1 / 2 < r" "r < rat_of_int ((m + 2) div 5) + 1 / 2"
    using assms unfolding n_def by linarith+
qed

section \<open>The weighted total and the keyword score\<close>

lemma weighted_sum_close:
  fixes X2 X3 X4 :: rat
  assumes k: "0 \<le> k" "k \<le> 100"
    and X: "0 \<le> X2" "X2 \<le> 20" "0 \<le> X3" "X3 \<le> 10" "0 \<le> X4" "X4 \<le> 30"
  shows "\<bar>to_double (to_double (to_double (to_double (of_int k * lit_0_4) + X2) + X3) + X4)
          - (of_int k * (2 / 5) + X2 + X3 + X4)\<bar> < 1 / 10"
proof -
  define c where "c = rat_of_int k"
  have c: "0 \<le> c" "c \<le> 100" using k unfolding c_def by simp_all
  define x1 where "x1 = to_double (c * lit_0_4)"
  define y1 where "y1 = to_double (x1 + X2)"
  define y2 where "y2 = to_double (y1 + X3)"
  define y3 where "y3 = to_double (y2 + X4)"
  have "\<bar>c * lit_0_4\<bar> \<le> 64" using c unfolding lit_values by (simp only: abs_le_iff) linarith
  from to_double_bound [OF this]
  have x1: "c * (2 / 5) - 64 / 9007199254740992 \<le> x1" "x1 \<le> c * (2 / 5) + 84 / 9007199254740992"
    using c unfolding x1_def lit_values by linarith+
  have "\<bar>x1 + X2\<bar> \<le> 64" using x1 c X by (simp only: abs_le_iff) linarith
  from to_double_bound [OF this]
  have y1: "x1 + X2 - 64 / 9007199254740992 \<le> y1" "y1 \<le> x1 + X2 + 64 / 9007199254740992"
    unfolding y1_def by linarith+
  have "\<bar>y1 + X3\<bar> \<le> 128" using y1 x1 c X by (simp only: abs_le_iff) linarith
  from to_double_bound [OF this]
  have y2: "y1 + X3 - 128 / 9007199254740992 \<le> y2" "y2 \<le> y1 + X3 + 128 / 9007199254740992"
    unfolding y2_def by linarith+
  have "\<bar>y2 + X4\<bar> \<le> 128" using y2 y1 x1 c X by (simp only: abs_le_iff) linarith
  from to_double_bound [OF this]
  have y3: "y2 + X4 - 128 / 9007199254740992 \<le> y3" "y3 \<le> y2 + X4 + 128 / 9007199254740992"
    unfolding y3_def by linarith+
  have "\<bar>y3 - (c * (2 / 5) + X2 + X3 + X4)\<bar> < 1 / 10"
    using x1 y1 y2 y3 by (simp only: abs_less_iff) linarith
  then show ?thesis unfolding y3_def y2_def y1_def x1_def c_def .
qed

lemma component_values:
  "fmul (float_of_int 40) lit_0_2 = 8" "fmul (float_of_int 100) lit_0_2 = 20"
  "fmul (float_of_int 30) lit_0_1 = 3" "fmul (float_of_int 80) lit_0_1 = 8"
  "fmul (float_of_int 100) lit_0_1 = 10"
  "fmul 30 (float_of_int 1) = 30" "fmul 30 (float_of_int 0) = 0"
  by code_simp+

lemma total_of_closed_form:
  assumes k: "0 \<le> k" "k \<le> 100" and s: "s = 40 \<or> s = 100" and n: "n = 30 \<or> n = 80 \<or> n = 100"
  shows "total_of k s n ov = (2 * k + s + n div 2 + (if 0 < ov then 150 else 0) + 2) div 5"
proof -
  define X2 :: rat where "X2 = of_int s / 5"
  define X3 :: rat where "X3 = of_int n / 10"
  define X4 :: rat where "X4 = (if 0 < ov then 30 else 0)"
  define m where "m = 2 * k + s + n div 2 + (if 0 < ov then 150 else 0)"
  have fk: "float_of_int k = of_int k" using k by (intro float_of_int_exact) simp
  have f2: "fmul (float_of_int s) lit_0_2 = X2" using s by (auto simp: component_values X2_def)
  have f3: "fmul (float_of_int n) lit_0_1 = X3" using n by (auto simp: component_values X3_def)
  have f4: "fmul (fmul lit_0_3 (float_of_int 100)) (float_of_int (if 0 < ov then 1 else 0)) = X4"
    by (simp add: bonus_value component_values X4_def)
  have X: "0 \<le> X2" "X2 \<le> 20" "0 \<le> X3" "X3 \<le> 10" "0 \<le> X4" "X4 \<le> 30"
    using s n by (auto simp: X2_def X3_def X4_def)
  have "2 * (n div 2) = n" using n by auto
  then have "rat_of_int (n div 2) = of_int n / 2"
    by (metis of_int_mult of_int_numeral nonzero_mult_div_cancel_left zero_neq_numeral)
  then have "of_int k * (2 / 5) + X2 + X3 + X4 = rat_of_int m / 5"
    by (simp add: X2_def X3_def X4_def m_def)
  then have "\<bar>to_double (to_double (to_double (to_double (of_int k * lit_0_4) + X2) + X3) + X4)
      - rat_of_int m / 5\<bar> < 1 / 10"
    using weighted_sum_close [OF k X] by (simp only:)
  then have "round_half_even (to_double (to_double (to_double (to_double (of_int k * lit_0_4) + X2) + X3) + X4))
      = (m + 2) div 5"
    by (rule round_fifths)
  then show ?thesis
    unfolding total_of_def f2 f3 f4 fk py_round_def fadd_def m_def by (simp add: fmul_def)
qed

lemma exact_weighted_round:
  assumes s: "s = 40 \<or> s = 100" and n: "n = 30 \<or> n = 80 \<or> n = 100"
  shows "round_half_even (of_int k * (4 / 10) + of_int s * (2 / 10) + of_int n * (1 / 10)
           + 100 * (3 / 10) * (if 0 < (ov::nat) then 1 else 0))
         = (2 * k + s + n div 2 + (if 0 < ov then 150 else 0) + 2) div 5"
proof -
  define m where "m = 2 * k + s + n div 2 + (if 0 < ov then 150 else 0)"
  have "2 * (n div 2) = n" using n by auto
  then have "rat_of_int (n div 2) = of_int n / 2"
    by (metis of_int_mult of_int_numeral nonzero_mult_div_cancel_left zero_neq_numeral)
  then have "of_int k * (4 / 10) + of_int s * (2 / 10) + of_int n * (1 / 10)
           + 100 * (3 / 10) * (if 0 < ov then 1 else 0) = rat_of_int m / 5"
    by (simp add: m_def)
  then show ?thesis unfolding m_def [symmetric] by (intro round_fifths) simp
qed

lemma hundred_exact: "float_of_int 100 = 100"
  by code_simp

lemma coverage_close:
  assumes "a \<le> b" "0 < b"
  defines "r \<equiv> fmul (to_double (of_int (int a) / of_int (int b))) (float_of_int 100)"
  shows "100 * rat_of_nat a / rat_of_nat b - 228 / 9007199254740992 \<le> r"
    and "r \<le> 100 * rat_of_nat a / rat_of_nat b + 228 / 9007199254740992"
proof -
  define q where "q = rat_of_nat a / rat_of_nat b"
  have q: "0 \<le> q" "q \<le> 1" using assms(1,2) by (simp_all add: q_def)
  define q1 where "q1 = to_double q"
  have "\<bar>q\<bar> \<le> 1" using q by simp
  from to_double_bound [OF this]
  have q1: "q - 1 / 9007199254740992 \<le> q1" "q1 \<le> q + 1 / 9007199254740992"
    unfolding q1_def by linarith+
  have "\<bar>q1 * 100\<bar> \<le> 128" using q q1 by (simp only: abs_le_iff) linarith
  from to_double_bound [OF this]
  have "q1 * 100 - 128 / 9007199254740992 \<le> to_double (q1 * 100)"
    "to_double (q1 * 100) \<le> q1 * 100 + 128 / 9007199254740992" by linarith+
  moreover have "r = to_double (q1 * 100)"
    unfolding r_def q1_def q_def fmul_def hundred_exact by simp
  moreover have "100 * rat_of_nat a / rat_of_nat b = 100 * q" by (simp add: q_def)
  ultimately show "100 * rat_of_nat a / rat_of_nat b - 228 / 9007199254740992 \<le> r"
    and "r \<le> 100 * rat_of_nat a / rat_of_nat b + 228 / 9007199254740992"
    using q1 by linarith+
qed

lemma keyword_score_range:
  assumes "a \<le> b" "0 < b"
  shows "0 \<le> keyword_score_of a b" "keyword_score_of a b \<le> 100"
proof -
  define r where "r = fmul (to_double (of_int (int a) / of_int (int b))) (float_of_int 100)"
  define v where "v = 100 * rat_of_nat a / rat_of_nat b"
  have "rat_of_nat a / rat_of_nat b \<le> 1" "0 \<le> rat_of_nat a / rat_of_nat b" using assms by simp_all
  then have v: "0 \<le> v" "v \<le> 100" unfolding v_def by linarith+
  have r: "v - 228 / 9007199254740992 \<le> r" "r \<le> v + 228 / 9007199254740992"
    using coverage_close [OF assms] unfolding r_def v_def by simp_all
  have "- 1 / 2 < r" using r v by linarith
  then have "rat_of_int 0 - 1 / 2 < r" by simp
  then have "0 \<le> round_half_even r" by (rule round_half_even_ge)
  moreover have "r < 100 + 1 / 2" using r v by linarith
  then have "r < rat_of_int 100 + 1 / 2" by simp
  then have "round_half_even r \<le> 100" by (rule round_half_even_le)
  ultimately show "0 \<le> keyword_score_of a b" "keyword_score_of a b \<le> 100"
    unfolding keyword_score_of_def py_round_def r_def by simp_all
qed



text \<open>
  The model against CPython on three quotients: \<open>23 / 40\<close> is the double
  \<open>2589569785738035 / 2\<^sup>5\<^sup>2\<close>, and \<open>round(23 / 40 * 100)\<close> is 57 although the exact
  percentage is 57.5; \<open>round(1 / 8 * 100)\<close> is 12 and \<open>round(3 / 8 * 100)\<close> is 38, the even
  neighbours of 12.5 and 37.5.
\<close>

lemma float_examples:
  "to_double (23 / 40) = 2589569785738035 / 4503599627370496"
  "keyword_score_of 23 40 = 57"
  "keyword_score_of 1 8 = 12"
  "keyword_score_of 3 8 = 38"
  by code_simp+


section \<open>The scorer in terms of its sub-scores\<close>

lemma compute_fit_score_nonempty:
  fixes jd_text resume_md :: string
  assumes "set (tokens jd_text) \<noteq> {}"
  defines "ov \<equiv> card (set (tokens jd_text) \<inter> set (tokens resume_md))"
  defines "k \<equiv> keyword_score_of ov (card (set (tokens jd_text)))"
  defines "s \<equiv> seniority_of (set (tokens jd_text)) (set (tokens resume_md))"
  defines "n \<equiv> numeric_of jd_text resume_md"
  shows "compute_fit_score jd_text resume_md
         = Inr (total_of k s n ov, breakdown_of k s n (total_of k s n ov))"
proof -
  have "card (set (tokens jd_text)) \<noteq> 0" using assms(1) by simp
  then show ?thesis
    using assms(1)
    unfolding compute_fit_score_def truediv_def ov_def k_def s_def n_def
      keyword_score_of_def total_of_def seniority_of_def numeric_of_def breakdown_of_def Let_def
    by simp
qed

lemma compute_fit_score_empty:
  "set (tokens jd_text) = {} \<Longrightarrow> compute_fit_score jd_text resume_md = Inr (0, Map.empty)"
  by (simp add: compute_fit_score_def)

lemma compute_fit_score_no_exception: "\<exists>r. compute_fit_score jd_text resume_md = Inr r"
proof (cases "set (tokens jd_text) = {}")
  case True
  then show ?thesis by (simp add: compute_fit_score_empty)
next
  case False
  then show ?thesis by (simp add: compute_fit_score_nonempty)
qed

lemma tokens_empty_text: "tokens [] = []"
  by (simp add: tokens_def)

lemma tokens_no_words: "tokens ''C, the 42 R'' = []"
  by code_simp

section \<open>The tokenizer: shape of the tokens\<close>

lemma code_char_of_small: "n < 256 \<Longrightarrow> code (char_of n) = n"
  by (simp add: code_def)

lemma lower_char_letter: "is_letter c \<Longrightarrow> is_lower (lower_char c)"
proof -
  assume l: "is_letter c"
  show ?thesis
  proof (cases "is_upper c")
    case True
    then have "code c + 32 < 256" "97 \<le> code c + 32" "code c + 32 \<le> 122"
      by (simp_all add: is_upper_def)
    then show ?thesis using True
      by (simp add: lower_char_def is_lower_def code_char_of_small)
  next
    case False
    then have "is_lower c" using l by (simp add: is_letter_def)
    then show ?thesis using False by (auto simp: lower_char_def is_lower_def)
  qed
qed

lemma TOKEN_RE_findall_shape:
  "t \<in> set (TOKEN_RE_findall s) \<Longrightarrow> \<exists>c d ds. t = c # d # ds \<and> is_letter c"
proof (induction s arbitrary: t rule: TOKEN_RE_findall.induct)
  case 1
  then show ?case by simp
next
  case (2 c cs)
  show ?case
  proof (cases "is_letter c \<and> takeWhile is_token_char cs \<noteq> []")
    case True
    then have "t = c # takeWhile is_token_char cs \<or> t \<in> set (TOKEN_RE_findall (dropWhile is_token_char cs))"
      using "2.prems" by simp
    then show ?thesis
    proof
      assume "t = c # takeWhile is_token_char cs"
      then show ?thesis using True by (cases "takeWhile is_token_char cs") auto
    next
      assume "t \<in> set (TOKEN_RE_findall (dropWhile is_token_char cs))"
      then show ?thesis using True "2.IH"(1) by blast
    qed
  next
    case False
    then have "t \<in> set (TOKEN_RE_findall cs)" using "2.prems" by auto
    then show ?thesis using False "2.IH"(2) by blast
  qed
qed

lemma tokens_shape:
  assumes "t \<in> set (tokens text)"
  shows "\<exists>c d ds. t = c # d # ds \<and> is_lower c"
proof -
  obtain u where u: "u \<in> set (TOKEN_RE_findall text)" "t = lower u"
    using assms by (auto simp: tokens_def)
  then obtain c d ds where "u = c # d # ds" "is_letter c"
    using TOKEN_RE_findall_shape by blast
  then show ?thesis using u(2) by (simp add: lower_def lower_char_letter)
qed

lemma tokens_cpp_example: "tokens ''C++ and R'' = [''c++'']"
  by code_simp

section \<open>The years pattern: what it matches\<close>

lemma space_not_digit: "is_space c \<Longrightarrow> \<not> is_digit c"
  by (auto simp: is_space_def is_digit_def)

lemma y_not_space: "\<not> is_space CHR ''y''"
  by (simp add: is_space_def code_def)

lemma match_years_at:
  assumes "is_digit d" "ws \<noteq> []" "\<forall>c \<in> set ws. is_space c"
  shows "match_years (d # ws @ ''years'' @ post) = Some ([d], post)"
proof -
  obtain w ws' where ws: "ws = w # ws'" using assms(2) by (cases ws) auto
  have nd: "\<not> is_digit w" using assms(3) ws space_not_digit by simp
  have t1: "takeWhile is_digit (d # ws @ ''years'' @ post) = [d]"
    and d1: "dropWhile is_digit (d # ws @ ''years'' @ post) = ws @ ''years'' @ post"
    using assms(1) nd ws by simp_all
  have t2: "takeWhile is_space (ws @ ''years'' @ post) = ws"
    and d2: "dropWhile is_space (ws @ ''years'' @ post) = ''years'' @ post"
    using assms(3) y_not_space by simp_all
  show ?thesis
    unfolding match_years_def Let_def t1 d1 t2 d2 using assms(2) by simp
qed

lemma findall_years_found:
  assumes "is_digit d" "ws \<noteq> []" "\<forall>c \<in> set ws. is_space c"
  shows "findall_years (pre @ d # ws @ ''years'' @ post) \<noteq> []"
proof (induction pre)
  case Nil
  then show ?case using match_years_at [OF assms] by simp
next
  case (Cons p pre)
  then show ?case by (simp split: option.splits)
qed

lemma match_years_shape:
  assumes "match_years s = Some (g, r)"
  shows "\<exists>pre d ws. s = pre @ d # ws @ ''years'' @ r \<and> is_digit d \<and> ws \<noteq> []
           \<and> (\<forall>c \<in> set ws. is_space c)"
proof -
  define ds where "ds = takeWhile is_digit s"
  define r1 where "r1 = dropWhile is_digit s"
  define ws where "ws = takeWhile is_space r1"
  define r2 where "r2 = dropWhile is_space r1"
  have m: "ds \<noteq> []" "ws \<noteq> []" "prefix ''years'' r2" "r = drop 5 r2"
    using assms unfolding match_years_def Let_def ds_def r1_def ws_def r2_def
    by (auto split: if_splits)
  have r2: "r2 = ''years'' @ r" using m(3,4) by (auto simp: prefix_def)
  have s: "s = ds @ ws @ r2" unfolding ds_def ws_def r2_def r1_def by simp
  have "is_digit (last ds)" using m(1) unfolding ds_def
    by (meson last_in_set set_takeWhileD)
  moreover have "\<forall>c \<in> set ws. is_space c" unfolding ws_def by (auto dest: set_takeWhileD)
  moreover have "s = butlast ds @ last ds # ws @ ''years'' @ r"
    using s m(1) r2 by simp
  ultimately show ?thesis using m(2) by blast
qed

lemma findall_years_shape:
  "findall_years s \<noteq> [] \<Longrightarrow>
     \<exists>pre d ws post. s = pre @ d # ws @ ''years'' @ post \<and> is_digit d \<and> ws \<noteq> []
        \<and> (\<forall>c \<in> set ws. is_space c)"
proof (induction s rule: findall_years.induct)
  case 1
  then show ?case by simp
next
  case (2 c cs)
  show ?case
  proof (cases "match_years (c # cs)")
    case None
    then have "findall_years cs \<noteq> []" using "2.prems" by simp
    then obtain pre d ws post where
      "cs = pre @ d # ws @ ''years'' @ post" "is_digit d" "ws \<noteq> []" "\<forall>c \<in> set ws. is_space c"
      using "2.IH"(1) None by blast
    then have "c # cs = (c # pre) @ d # ws @ ''years'' @ post \<and> is_digit d \<and> ws \<noteq> []
        \<and> (\<forall>c \<in> set ws. is_space c)" by simp
    then show ?thesis by blast
  next
    case (Some p)
    then obtain g r where "match_years (c # cs) = Some (g, r)" by (cases p) auto
    then show ?thesis using match_years_shape by blast
  qed
qed

lemma is_digit_lower_char: "is_digit (lower_char c) \<longleftrightarrow> is_digit c"
proof (cases "is_upper c \<or> (192 \<le> code c \<and> code c \<le> 222 \<and> code c \<noteq> 215)")
  case True
  then have "code c + 32 < 256" by (auto simp: is_upper_def)
  then have "code (lower_char c) = code c + 32"
    using True by (simp add: lower_char_def code_def)
  then show ?thesis using True by (auto simp: is_digit_def is_upper_def)
next
  case False
  then have "lower_char c = c" unfolding lower_char_def by (rule if_not_P)
  then show ?thesis by simp
qed

lemma is_space_lower_char: "is_space (lower_char c) \<longleftrightarrow> is_space c"
proof (cases "is_upper c \<or> (192 \<le> code c \<and> code c \<le> 222 \<and> code c \<noteq> 215)")
  case True
  then have "code c + 32 < 256" by (auto simp: is_upper_def)
  then have "code (lower_char c) = code c + 32"
    using True by (simp add: lower_char_def code_def)
  then show ?thesis using True by (auto simp: is_space_def is_upper_def)
next
  case False
  then have "lower_char c = c" unfolding lower_char_def by (rule if_not_P)
  then show ?thesis by simp
qed

lemma findall_years_iff_figure: "findall_years (lower text) \<noteq> [] \<longleftrightarrow> years_figure text"
proof
  assume "findall_years (lower text) \<noteq> []"
  then obtain pre d ws post where l: "lower text = pre @ d # ws @ ''years'' @ post"
    and p: "is_digit d" "ws \<noteq> []" "\<forall>c \<in> set ws. is_space c"
    using findall_years_shape by blast
  from l obtain pre' t1 where 1: "text = pre' @ t1" "map lower_char t1 = d # ws @ ''years'' @ post"
    unfolding lower_def by (auto simp: map_eq_append_conv)
  then obtain d' t2 where 2: "t1 = d' # t2" "lower_char d' = d" "map lower_char t2 = ws @ ''years'' @ post"
    by (auto simp: map_eq_Cons_conv)
  then obtain ws' t3 where 3: "t2 = ws' @ t3" "map lower_char ws' = ws" "map lower_char t3 = ''years'' @ post"
    by (auto simp: map_eq_append_conv)
  from 3(3) [unfolded map_eq_append_conv]
  obtain w' post' where 4: "t3 = w' @ post'" "map lower_char w' = ''years''"
    by metis
  have "is_digit d'" using p(1) 2(2) is_digit_lower_char by blast
  moreover have "ws' \<noteq> []" using p(2) 3(2) by auto
  moreover have "\<forall>c \<in> set ws'. is_space c" using p(3) 3(2) is_space_lower_char by auto
  moreover have "text = pre' @ [d'] @ ws' @ w' @ post'" using 1 2 3 4 by simp
  moreover have "lower w' = ''years''" using 4(2) by (simp only: lower_def)
  ultimately have "text = pre' @ [d'] @ ws' @ w' @ post' \<and> is_digit d' \<and> ws' \<noteq> []
        \<and> (\<forall>c \<in> set ws'. is_space c) \<and> lower w' = ''years''" by (simp only: simp_thms)
  then show "years_figure text"
    unfolding years_figure_def
    by (intro exI [of _ pre'] exI [of _ d'] exI [of _ ws'] exI [of _ w'] exI [of _ post'])
next
  assume "years_figure text"
  then obtain pre d ws w post where t: "text = pre @ [d] @ ws @ w @ post"
    and p: "is_digit d" "ws \<noteq> []" "\<forall>c \<in> set ws. is_space c" "lower w = ''years''"
    unfolding years_figure_def by blast
  have "lower text = lower pre @ lower_char d # lower ws @ ''years'' @ lower post"
    using t p(4) by (simp add: lower_def)
  moreover have "is_digit (lower_char d)" "lower ws \<noteq> []" "\<forall>c \<in> set (lower ws). is_space c"
    using p by (simp_all add: is_digit_lower_char is_space_lower_char lower_def)
  ultimately show "findall_years (lower text) \<noteq> []"
    using findall_years_found by simp
qed

section \<open>The sub-scores\<close>

lemma breakdown_of_values:
  "breakdown_of k s n t ''keyword_coverage'' = Some k"
  "breakdown_of k s n t ''seniority'' = Some s"
  "breakdown_of k s n t ''numeric'' = Some n"
  "breakdown_of k s n t ''overall'' = Some t"
  by (simp_all add: breakdown_of_def)

lemma scorer_breakdown:
  fixes jd_text resume_md :: string
  assumes ne: "set (tokens jd_text) \<noteq> {}"
  defines "ov \<equiv> card (set (tokens jd_text) \<inter> set (tokens resume_md))"
  defines "k \<equiv> keyword_score_of ov (card (set (tokens jd_text)))"
  defines "s \<equiv> seniority_of (set (tokens jd_text)) (set (tokens resume_md))"
  defines "n \<equiv> numeric_of jd_text resume_md"
  obtains t bd where "compute_fit_score jd_text resume_md = Inr (t, bd)"
    and "t = total_of k s n ov"
    and "bd ''keyword_coverage'' = Some k" and "bd ''seniority'' = Some s"
    and "bd ''numeric'' = Some n" and "bd ''overall'' = Some t"
proof -
  have "compute_fit_score jd_text resume_md
        = Inr (total_of k s n ov, breakdown_of k s n (total_of k s n ov))"
    unfolding k_def s_def n_def ov_def using ne by (rule compute_fit_score_nonempty)
  then show thesis
    using that [of "total_of k s n ov" "breakdown_of k s n (total_of k s n ov)"]
    by (simp only: breakdown_of_values)
qed

lemma seniority_of_iff:
  "seniority_of J R =
     (if (\<forall>s \<in> set SENIORITY. s \<notin> J) \<or> (\<exists>s \<in> set SENIORITY. s \<in> J \<and> s \<in> R) then 100 else 40)"
proof -
  have "[s \<leftarrow> SENIORITY. s \<in> J] = [] \<longleftrightarrow> (\<forall>s \<in> set SENIORITY. s \<notin> J)"
    by (simp add: filter_empty_conv)
  moreover have "list_ex (\<lambda>s. s \<in> set [s \<leftarrow> SENIORITY. s \<in> R]) [s \<leftarrow> SENIORITY. s \<in> J]
      \<longleftrightarrow> (\<exists>s \<in> set SENIORITY. s \<in> J \<and> s \<in> R)"
    by (auto simp: list_ex_iff)
  ultimately show ?thesis unfolding seniority_of_def Let_def by auto
qed

lemma SENIORITY_terms:
  "set SENIORITY = {''intern'', ''junior'', ''associate'', ''mid'', ''senior'', ''lead'',
     ''principal'', ''director'', ''vp'', ''chief''}"
  by (simp add: SENIORITY_def)

lemma senior_junior_tokens:
  "tokens ''Senior Engineer role'' = [''senior'', ''engineer'', ''role'']"
  "tokens ''Junior Developer'' = [''junior'', ''developer'']"
  "tokens ''Senior Developer'' = [''senior'', ''developer'']"
  by code_simp+

lemma senior_junior_seniority:
  "seniority_of (set (tokens ''Senior Engineer role'')) (set (tokens ''Junior Developer'')) = 40"
  by code_simp

lemma numeric_of_figure:
  "numeric_of jd_text resume_md =
     (if \<not> years_figure jd_text then 100
      else if years_figure resume_md then 80 else 30)"
  unfolding numeric_of_def findall_years_iff_figure [symmetric] by simp

lemma years_examples:
  "tokens ''Python, 5 Years min.'' = [''python'', ''years'', ''min.'']"
  "findall_years (lower ''Python, 5 Years min.'') = [''5'']"
  "findall_years (lower ''Python since 2019'') = []"
  "findall_years (lower ''I have 12  YEARS of Python'') = [''12'']"
  by code_simp+

lemma seniority_of_cases: "seniority_of J R = 40 \<or> seniority_of J R = 100"
  by (simp add: seniority_of_def Let_def)

lemma numeric_of_cases:
  "numeric_of jd_text resume_md = 30 \<or> numeric_of jd_text resume_md = 80
     \<or> numeric_of jd_text resume_md = 100"
  by (simp add: numeric_of_def)

lemma overlap_card:
  "card (set xs \<inter> set ys) \<le> card (set xs)"
  "0 < card (set xs \<inter> set ys) \<longleftrightarrow> set xs \<inter> set ys \<noteq> {}"
  by (simp_all add: card_mono card_gt_0_iff)

lemma std_round_fifths: "round (rat_of_int m / 5) = (m + 2) div 5"
proof (rule round_unique)
  define n where "n = (m + 2) div 5"
  have "5 * n - 2 \<le> m" "m \<le> 5 * n + 2" unfolding n_def by presburger+
  then have "rat_of_int (5 * n - 2) \<le> of_int m" "rat_of_int m \<le> of_int (5 * n + 2)"
    by (simp_all only: of_int_le_iff)
  then show "rat_of_int m / 5 - 1 / 2 < rat_of_int ((m + 2) div 5)"
    "rat_of_int ((m + 2) div 5) \<le> rat_of_int m / 5 + 1 / 2"
    unfolding n_def [symmetric] by (simp_all add: field_simps)
qed

lemma std_weighted_round:
  assumes s: "s = 40 \<or> s = 100" and n: "n = 30 \<or> n = 80 \<or> n = 100"
  shows "round (rat_of_int k * (4 / 10) + of_int s * (2 / 10) + of_int n * (1 / 10)
           + 100 * (3 / 10) * (if 0 < (ov::nat) then 1 else 0))
         = (2 * k + s + n div 2 + (if 0 < ov then 150 else 0) + 2) div 5"
proof -
  define m where "m = 2 * k + s + n div 2 + (if 0 < ov then 150 else 0)"
  have "2 * (n div 2) = n" using n by auto
  then have "rat_of_int (n div 2) = of_int n / 2"
    by (metis of_int_mult of_int_numeral nonzero_mult_div_cancel_left zero_neq_numeral)
  then have "of_int k * (4 / 10) + of_int s * (2 / 10) + of_int n * (1 / 10)
           + 100 * (3 / 10) * (if 0 < ov then 1 else 0) = rat_of_int m / 5"
    by (simp add: m_def)
  then show ?thesis unfolding m_def [symmetric] by (simp only: std_round_fifths)
qed

lemma total_of_exact:
  fixes a b :: nat and J R :: "string set" and jd_text resume_md :: string
  assumes "a \<le> b" "0 < b"
  defines "k \<equiv> keyword_score_of a b"
  defines "s \<equiv> seniority_of J R"
  defines "n \<equiv> numeric_of jd_text resume_md"
  defines "v \<equiv> rat_of_int k * (4 / 10) + of_int s * (2 / 10) + of_int n * (1 / 10)
           + 100 * (3 / 10) * (if 0 < a then 1 else 0)"
  shows "total_of k s n a = round_half_even v" "total_of k s n a = round v"
    "0 \<le> total_of k s n a" "total_of k s n a \<le> 100"
proof -
  have k: "0 \<le> k" "k \<le> 100" unfolding k_def using assms(1,2) by (rule keyword_score_range)+
  have s: "s = 40 \<or> s = 100" unfolding s_def by (rule seniority_of_cases)
  have n: "n = 30 \<or> n = 80 \<or> n = 100" unfolding n_def by (rule numeric_of_cases)
  have t: "total_of k s n a = (2 * k + s + n div 2 + (if 0 < a then 150 else 0) + 2) div 5"
    using k s n by (rule total_of_closed_form)
  show "total_of k s n a = round_half_even v"
    unfolding t v_def using s n by (rule exact_weighted_round [symmetric])
  show "total_of k s n a = round v"
    unfolding t v_def using s n by (rule std_weighted_round [symmetric])
  show "0 \<le> total_of k s n a" "total_of k s n a \<le> 100"
    unfolding t using k s n by auto
qed



lemma python_tokens: "tokens ''Python developer'' = [''python'', ''developer'']"
  by code_simp

lemma senior_python_tokens:
  "tokens ''Senior Python developer'' = [''senior'', ''python'', ''developer'']"
  by code_simp

lemma scenario_tokens:
  "tokens scenario_job
     = [''senior'', ''python'', ''engineer.'', ''years'', ''experience'', ''python'', ''aws'',
        ''required.'']"
  "tokens scenario_resume
     = [''senior'', ''engineer'', ''years'', ''experience'', ''python'', ''aws.'']"
  by code_simp+

lemma scenario_years:
  "findall_years (lower scenario_job) = [''5'']"
  "findall_years (lower scenario_resume) = [''6'']"
  by code_simp+

lemma scenario_sets:
  "card (set [''senior'', ''python'', ''engineer.'', ''years'', ''experience'', ''python'', ''aws'',
        ''required.''] \<inter> set [''senior'', ''engineer'', ''years'', ''experience'', ''python'', ''aws.'']) = 4"
  "card (set [''senior'', ''python'', ''engineer.'', ''years'', ''experience'', ''python'', ''aws'',
        ''required.'']) = 7"
  "seniority_of (set [''senior'', ''python'', ''engineer.'', ''years'', ''experience'', ''python'', ''aws'',
        ''required.'']) (set [''senior'', ''engineer'', ''years'', ''experience'', ''python'', ''aws.'']) = 100"
  by code_simp+

lemma scenario_numbers:
  "keyword_score_of 4 7 = 57"
  "total_of 57 100 80 4 = 81"
  by code_simp+

lemma scenario_value:
  "compute_fit_score scenario_job scenario_resume
     = Inr (81, [''keyword_coverage'' \<mapsto> 57, ''seniority'' \<mapsto> 100, ''numeric'' \<mapsto> 80,
                 ''overall'' \<mapsto> 81])"
proof -
  have ne: "set (tokens scenario_job) \<noteq> {}" by (simp add: scenario_tokens)
  have n: "numeric_of scenario_job scenario_resume = 80"
    by (simp add: numeric_of_def scenario_years)
  show ?thesis
    unfolding compute_fit_score_nonempty [OF ne] n
    unfolding scenario_tokens scenario_sets scenario_numbers breakdown_of_def
    by (rule refl)
qed

lemma compute_fit_score_depends_on:
  assumes "set (tokens jd_text) = set (tokens jd_text')"
    and "set (tokens resume_md) = set (tokens resume_md')"
    and "findall_years (lower jd_text) = [] \<longleftrightarrow> findall_years (lower jd_text') = []"
    and "findall_years (lower resume_md) = [] \<longleftrightarrow> findall_years (lower resume_md') = []"
  shows "compute_fit_score jd_text resume_md = compute_fit_score jd_text' resume_md'"
proof (cases "set (tokens jd_text) = {}")
  case True
  then have "set (tokens jd_text') = {}" using assms(1) by simp
  then show ?thesis using True by (simp only: compute_fit_score_empty)
next
  case False
  then have ne: "set (tokens jd_text') \<noteq> {}" using assms(1) by simp
  have "numeric_of jd_text resume_md = numeric_of jd_text' resume_md'"
    unfolding numeric_of_def using assms(3,4) by simp
  then show ?thesis
    unfolding compute_fit_score_nonempty [OF False] compute_fit_score_nonempty [OF ne]
    using assms(1,2) by simp
qed

section \<open>The tokenizer: words between separators\<close>

lemma not_token_char_not_letter: "\<not> is_token_char c \<Longrightarrow> \<not> is_letter c"
  by (simp add: is_token_char_def)

lemma takeWhile_before_sep:
  "\<not> P c \<Longrightarrow> takeWhile P (xs @ c # ys) = takeWhile P xs"
  by (induction xs) auto

lemma dropWhile_before_sep:
  "\<not> P c \<Longrightarrow> dropWhile P (xs @ c # ys) = dropWhile P xs @ c # ys"
  by (induction xs) auto

lemma TOKEN_RE_findall_append_sep:
  assumes "\<not> is_token_char c"
  shows "TOKEN_RE_findall (pre @ c # rest) = TOKEN_RE_findall pre @ TOKEN_RE_findall rest"
proof (induction pre rule: TOKEN_RE_findall.induct)
  case 1
  show ?case using assms by (simp add: not_token_char_not_letter)
next
  case (2 p ps)
  have tw: "takeWhile is_token_char (ps @ c # rest) = takeWhile is_token_char ps"
    and dw: "dropWhile is_token_char (ps @ c # rest) = dropWhile is_token_char ps @ c # rest"
    using assms by (simp_all add: takeWhile_before_sep dropWhile_before_sep)
  show ?case
  proof (cases "is_letter p \<and> takeWhile is_token_char ps \<noteq> []")
    case True
    then show ?thesis using "2.IH"(1) tw dw by simp
  next
    case False
    then show ?thesis using "2.IH"(2) tw by auto
  qed
qed

lemma TOKEN_RE_findall_skip:
  assumes "post = [] \<or> \<not> is_token_char (hd post)"
  shows "TOKEN_RE_findall (c # post) = TOKEN_RE_findall post"
proof -
  have "takeWhile is_token_char post = []" using assms by (cases post) auto
  then show ?thesis by simp
qed



text \<open>A single character between characters outside the token class adds no match.\<close>

lemma TOKEN_RE_findall_single:
  assumes "pre = [] \<or> \<not> is_token_char (last pre)"
    and "post = [] \<or> \<not> is_token_char (hd post)"
  shows "TOKEN_RE_findall (pre @ [c] @ post) = TOKEN_RE_findall (pre @ post)"
proof (cases "pre = []")
  case True
  then show ?thesis using TOKEN_RE_findall_skip [OF assms(2)] by simp
next
  case False
  then have sep: "\<not> is_token_char (last pre)" using assms(1) by simp
  have 1: "pre @ [c] @ post = butlast pre @ last pre # (c # post)"
    and 2: "pre @ post = butlast pre @ last pre # post"
    using False by simp_all
  show ?thesis
    unfolding 1 2 TOKEN_RE_findall_append_sep [OF sep] TOKEN_RE_findall_skip [OF assms(2)] ..
qed




lemma lower_char_fixed: "\<not> is_upper c \<Longrightarrow> code c < 192 \<Longrightarrow> lower_char c = c"
  by (simp add: lower_char_def)









section \<open>The scorer on given texts\<close>

lemma compute_fit_score_value:
  assumes "tokens jd_text = J" "tokens resume_md = R" "J \<noteq> []"
    and "card (set J \<inter> set R) = a" "card (set J) = b"
    and "keyword_score_of a b = k" "seniority_of (set J) (set R) = s"
    and "numeric_of jd_text resume_md = n" "total_of k s n a = t"
  shows "compute_fit_score jd_text resume_md
         = Inr (t, [''keyword_coverage'' \<mapsto> k, ''seniority'' \<mapsto> s, ''numeric'' \<mapsto> n,
                    ''overall'' \<mapsto> t])"
proof -
  have ne: "set (tokens jd_text) \<noteq> {}" using assms(1,3) by simp
  show ?thesis
    unfolding compute_fit_score_nonempty [OF ne] assms(1,2) assms(4-9) breakdown_of_def
    by (rule refl)
qed

lemma same_tokens_same_scores:
  assumes "set (tokens jd_text) = set (tokens jd_text')"
    and "set (tokens resume_md) = set (tokens resume_md')"
  shows "\<exists>t bd t' bd'. compute_fit_score jd_text resume_md = Inr (t, bd)
           \<and> compute_fit_score jd_text' resume_md' = Inr (t', bd')
           \<and> bd ''keyword_coverage'' = bd' ''keyword_coverage''
           \<and> bd ''seniority'' = bd' ''seniority''"
proof (cases "set (tokens jd_text) = {}")
  case True
  then have "set (tokens jd_text') = {}" using assms(1) by simp
  then show ?thesis using True by (simp add: compute_fit_score_empty)
next
  case False
  then have ne: "set (tokens jd_text') \<noteq> {}" using assms(1) by simp
  show ?thesis
    unfolding compute_fit_score_nonempty [OF False] compute_fit_score_nonempty [OF ne]
    using assms by (simp add: breakdown_of_def)
qed

lemma tokens_single:
  assumes "pre = [] \<or> \<not> is_token_char (last pre)"
    and "post = [] \<or> \<not> is_token_char (hd post)"
  shows "tokens (pre @ [c] @ post) = tokens (pre @ post)"
  unfolding tokens_def TOKEN_RE_findall_single [OF assms] ..





lemma years_counterexample_values:
  "compute_fit_score ''Python 5years'' ''Python 3 years''
     = Inr (100, [''keyword_coverage'' \<mapsto> 100, ''seniority'' \<mapsto> 100, ''numeric'' \<mapsto> 100,
                  ''overall'' \<mapsto> 100])"
  "compute_fit_score ''Python since 2019 yearsago'' ''Python''
     = Inr (66, [''keyword_coverage'' \<mapsto> 33, ''seniority'' \<mapsto> 100, ''numeric'' \<mapsto> 30,
                 ''overall'' \<mapsto> 66])"
   apply (rule compute_fit_score_value [where J = "tokens ''Python 5years''"
        and R = "tokens ''Python 3 years''" and a = 2 and b = 2]; code_simp)
  apply (rule compute_fit_score_value [where J = "tokens ''Python since 2019 yearsago''"
        and R = "tokens ''Python''" and a = 1 and b = 3]; code_simp)
  done

lemma spec_years_examples:
  "spec_mentions_years ''Python 5years''"
  "spec_mentions_years ''Python 3 years''"
  "\<not> spec_mentions_years ''Python since 2019 yearsago''"
  "\<not> spec_mentions_years ''Python''"
  by code_simp+

lemma single_letter_values:
  "tokens ''We need C.'' = [''need'', ''c.'']"
  "tokens ''I know C.'' = [''know'', ''c.'']"
  "tokens ''We need'' = [''need'']"
  "tokens ''I know'' = [''know'']"
  by code_simp+

lemma single_letter_scores:
  "compute_fit_score ''We need C.'' ''I know C.''
     = Inr (80, [''keyword_coverage'' \<mapsto> 50, ''seniority'' \<mapsto> 100, ''numeric'' \<mapsto> 100,
                 ''overall'' \<mapsto> 80])"
  "compute_fit_score ''We need'' ''I know''
     = Inr (30, [''keyword_coverage'' \<mapsto> 0, ''seniority'' \<mapsto> 100, ''numeric'' \<mapsto> 100,
                 ''overall'' \<mapsto> 30])"
   apply (rule compute_fit_score_value [where J = "tokens ''We need C.''"
        and R = "tokens ''I know C.''" and a = 1 and b = 2]; code_simp)
  apply (rule compute_fit_score_value [where J = "tokens ''We need''"
        and R = "tokens ''I know''" and a = 0 and b = 1]; code_simp)
  done




lemma space_not_token_char: "\<not> is_token_char CHR '' ''"
  by code_simp


section \<open>The fallback of the text extractor\<close>

lemma max_by_len_longest:
  "max_by_len best xs \<in> set (best # xs)
   \<and> (\<forall>x \<in> set (best # xs). length x \<le> length (max_by_len best xs))"
proof (induction xs arbitrary: best)
  case Nil
  then show ?case by simp
next
  case (Cons x xs)
  show ?case
  proof (cases "length best < length x")
    case True
    then show ?thesis using Cons [of x] by auto
  next
    case False
    then show ?thesis using Cons [of best] by auto
  qed
qed

lemma max_len_longest:
  assumes "xs \<noteq> []"
  obtains best where "max_len xs = Inr best" "best \<in> set xs" "\<forall>x \<in> set xs. length x \<le> length best"
proof -
  obtain y ys where xs: "xs = y # ys" using assms by (cases xs) auto
  show thesis
    using that [of "max_by_len y ys"] max_by_len_longest [of y ys]
    unfolding xs max_len_def by simp
qed

text \<open>
  The fallback of \<open>job_apply_assistant.py\<close> takes the longest string of the page when one
  has more than 100 characters, and all the visible text otherwise.
\<close>

lemma fallback_takes_longest_string:
  assumes "\<exists>el \<in> set soup. 100 < length (node_string el)"
  shows "\<exists>best \<in> set soup. fetch_job_description_fallback soup = Inr (strip_html (node_string best))
           \<and> 100 < length (node_string best)
           \<and> (\<forall>el \<in> set soup. length (node_string el) \<le> length (node_string best))"
proof -
  define candidates where "candidates = [el \<leftarrow> map node_string soup. 100 < length el]"
  have ne: "candidates \<noteq> []" using assms unfolding candidates_def by (auto simp: filter_empty_conv)
  from max_len_longest [OF ne]
  obtain best where b: "max_len candidates = Inr best" "best \<in> set candidates"
    "\<forall>x \<in> set candidates. length x \<le> length best" by blast
  from b(2) obtain el where el: "el \<in> set soup" "node_string el = best" "100 < length best"
    unfolding candidates_def by auto
  have "length (node_string x) \<le> length best" if "x \<in> set soup" for x
  proof (cases "100 < length (node_string x)")
    case True
    then have "node_string x \<in> set candidates" using that unfolding candidates_def by simp
    then show ?thesis using b(3) by blast
  next
    case False
    then show ?thesis using el(3) by simp
  qed
  moreover have "fetch_job_description_fallback soup = Inr (strip_html best)"
    using ne b(1) unfolding fetch_job_description_fallback_def candidates_def [symmetric] Let_def
    by simp
  ultimately show ?thesis using el by blast
qed

lemma fallback_all_text:
  assumes "\<forall>el \<in> set soup. length (node_string el) \<le> 100"
  shows "fetch_job_description_fallback soup = Inr (strip_html (get_text newline soup))"
proof -
  have "[el \<leftarrow> map node_string soup. 100 < length el] = []"
    using assms by (auto simp: filter_empty_conv)
  then show ?thesis unfolding fetch_job_description_fallback_def Let_def by simp
qed

lemma fallback_returns_paragraph:
  "fetch_job_description_fallback fixture_page = Inr (replicate 500 CHR ''A'')"
  by code_simp

text \<open>The steps of the fallback of \<open>replit_app.py\<close> on the page of three paragraphs.\<close>

lemma fixture_page_steps:
  "get_text newline fixture_page
     = replicate 500 CHR ''A'' @ newline @ ''Apply now'' @ newline @ ''Remote''"
  "split (get_text newline fixture_page) (newline @ newline)
     = Inr [get_text newline fixture_page]"
  "length (get_text newline fixture_page) = 517"
  by code_simp+

lemma newline_is_space: "is_space (CHR 0x0A)"
  by (simp add: is_space_def code_def)

lemma split_from_blank_line_free:
  "blank_line_free s \<Longrightarrow> split_from (newline @ newline) cur s = [rev cur @ s]"
proof (induction s arbitrary: cur)
  case Nil
  then show ?case by simp
next
  case (Cons c cs)
  have "\<not> prefix (newline @ newline) (c # cs)"
    using Cons.prems by (cases cs) (auto simp: newline_def)
  moreover have "blank_line_free cs" using Cons.prems by (cases cs) auto
  ultimately show ?case using Cons.IH [of "c # cur"] by simp
qed

lemma blank_line_free_append:
  assumes "blank_line_free xs" "blank_line_free ys"
    and "xs = [] \<or> ys = [] \<or> last xs \<noteq> CHR 0x0A \<or> hd ys \<noteq> CHR 0x0A"
  shows "blank_line_free (xs @ ys)"
  using assms
proof (induction xs rule: blank_line_free.induct)
  case 1
  then show ?case by simp
next
  case (2 c)
  then show ?case by (cases ys) auto
next
  case (3 a b cs)
  then show ?case by simp
qed

lemma last_dropWhile: "dropWhile P xs \<noteq> [] \<Longrightarrow> last (dropWhile P xs) = last xs"
  by (induction xs) (auto split: if_splits)

lemma strip_ends:
  assumes "strip s \<noteq> []"
  shows "\<not> is_space (hd (strip s))" "\<not> is_space (last (strip s))"
proof -
  define t where "t = dropWhile is_space s"
  define u where "u = dropWhile is_space (rev t)"
  have u: "u \<noteq> []" "strip s = rev u" using assms unfolding strip_def t_def u_def by simp_all
  then have t: "t \<noteq> []" unfolding u_def by auto
  have "\<not> is_space (hd u)" using u(1) unfolding u_def by (rule hd_dropWhile)
  then show "\<not> is_space (last (strip s))" using u by (simp add: last_rev)
  have "last u = last (rev t)" using u(1) unfolding u_def by (rule last_dropWhile)
  also have "\<dots> = hd t" using t by (simp add: last_rev)
  finally have "hd (strip s) = hd t" using u by (simp add: hd_rev)
  moreover have "\<not> is_space (hd t)" using t unfolding t_def by (rule hd_dropWhile)
  ultimately show "\<not> is_space (hd (strip s))" by simp
qed

lemma join_blank_line_free:
  assumes "\<forall>x \<in> set xs. x \<noteq> [] \<and> hd x \<noteq> CHR 0x0A \<and> last x \<noteq> CHR 0x0A \<and> blank_line_free x"
  shows "blank_line_free (join newline xs)
         \<and> (xs \<noteq> [] \<longrightarrow> join newline xs \<noteq> [] \<and> hd (join newline xs) \<noteq> CHR 0x0A)"
  using assms
proof (induction newline xs rule: join.induct)
  case 1
  then show ?case by simp
next
  case (2 x)
  then show ?case by simp
next
  case (3 x y ys)
  define z where "z = join newline (y # ys)"
  have z: "blank_line_free z" "z \<noteq> []" "hd z \<noteq> CHR 0x0A"
    using 3 unfolding z_def by simp_all
  have x: "x \<noteq> []" "hd x \<noteq> CHR 0x0A" "last x \<noteq> CHR 0x0A" "blank_line_free x"
    using "3.prems" by simp_all
  have "blank_line_free (newline @ z)"
    using z by (cases z) (auto simp: newline_def)
  then have "blank_line_free (x @ newline @ z)"
    using x by (intro blank_line_free_append [of x "newline @ z"]) simp_all
  then show ?case using x unfolding z_def by simp
qed

text \<open>
  The fallback of \<open>replit_app.py\<close> returns all the text of every page none of whose strings
  holds a blank line: the split at blank lines then has one block, the whole text, and both
  branches return it.
\<close>

lemma replit_fallback_whole_text:
  assumes "\<forall>s \<in> set (visible_strings soup). blank_line_free (strip s)"
  shows "replit_fetch_job_description_fallback soup = Inr (strip_html (get_text newline soup))"
proof -
  define strs where "strs = [strip s. s \<leftarrow> visible_strings soup, strip s \<noteq> []]"
  have "x \<noteq> [] \<and> hd x \<noteq> CHR 0x0A \<and> last x \<noteq> CHR 0x0A \<and> blank_line_free x"
    if "x \<in> set strs" for x
  proof -
    from that obtain s where s: "s \<in> set (visible_strings soup)" "x = strip s" "strip s \<noteq> []"
      unfolding strs_def by auto
    have "\<not> is_space (hd x)" "\<not> is_space (last x)"
      unfolding s(2) using s(3) by (rule strip_ends)+
    then have "hd x \<noteq> CHR 0x0A" "last x \<noteq> CHR 0x0A"
      using newline_is_space by auto
    then show ?thesis using s assms by simp
  qed
  then have "\<forall>x \<in> set strs. x \<noteq> [] \<and> hd x \<noteq> CHR 0x0A \<and> last x \<noteq> CHR 0x0A \<and> blank_line_free x"
    by blast
  then have "blank_line_free (get_text newline soup)"
    unfolding get_text_def strs_def [symmetric] using join_blank_line_free by blast
  then have "split_from (newline @ newline) [] (get_text newline soup) = [get_text newline soup]"
    by (simp add: split_from_blank_line_free)
  moreover have "newline @ newline \<noteq> []" by (simp add: newline_def)
  ultimately have "split (get_text newline soup) (newline @ newline) = Inr [get_text newline soup]"
    unfolding split_def by (simp only: if_False)
  then show ?thesis
    unfolding replit_fetch_job_description_fallback_def Let_def by (simp add: max_len_def)
qed

section \<open>Properties of the fit scorer\<close>

text \<open>
  C1. With a non-empty job token set, the total is the weighted sum of the three sub-scores
  of the breakdown plus 30 when the two token sets overlap, rounded to the nearest
  integer. The sum is never half-way between two integers, so rounding half to even and
  rounding half up give the same total.
\<close>

theorem overall_score_formula:
  assumes "set (tokens jd_text) \<noteq> {}"
  shows "\<exists>t bd k s n. compute_fit_score jd_text resume_md = Inr (t, bd)
           \<and> bd ''keyword_coverage'' = Some k \<and> bd ''seniority'' = Some s
           \<and> bd ''numeric'' = Some n \<and> bd ''overall'' = Some t
           \<and> t = round_half_even
                 (of_int k * (4 / 10) + of_int s * (2 / 10) + of_int n * (1 / 10)
                  + 100 * (3 / 10)
                    * (if set (tokens jd_text) \<inter> set (tokens resume_md) \<noteq> {} then 1 else 0))
           \<and> t = round
                 (rat_of_int k * (4 / 10) + of_int s * (2 / 10) + of_int n * (1 / 10)
                  + 100 * (3 / 10)
                    * (if set (tokens jd_text) \<inter> set (tokens resume_md) \<noteq> {} then 1 else 0))"
proof -
  define a where "a = card (set (tokens jd_text) \<inter> set (tokens resume_md))"
  define b where "b = card (set (tokens jd_text))"
  define k where "k = keyword_score_of a b"
  define s where "s = seniority_of (set (tokens jd_text)) (set (tokens resume_md))"
  define n where "n = numeric_of jd_text resume_md"
  have ab: "a \<le> b" "0 < b"
    using assms unfolding a_def b_def by (simp_all add: overlap_card card_gt_0_iff)
  have ov: "0 < a \<longleftrightarrow> set (tokens jd_text) \<inter> set (tokens resume_md) \<noteq> {}"
    unfolding a_def by (rule overlap_card)
  from scorer_breakdown [OF assms, of resume_md]
  obtain t bd where r: "compute_fit_score jd_text resume_md = Inr (t, bd)"
    and t: "t = total_of k s n a"
    and bd: "bd ''keyword_coverage'' = Some k" "bd ''seniority'' = Some s"
      "bd ''numeric'' = Some n" "bd ''overall'' = Some t"
    unfolding a_def b_def k_def s_def n_def by metis
  have "t = round_half_even
                 (of_int k * (4 / 10) + of_int s * (2 / 10) + of_int n * (1 / 10)
                  + 100 * (3 / 10)
                    * (if set (tokens jd_text) \<inter> set (tokens resume_md) \<noteq> {} then 1 else 0))"
    and "t = round
                 (rat_of_int k * (4 / 10) + of_int s * (2 / 10) + of_int n * (1 / 10)
                  + 100 * (3 / 10)
                    * (if set (tokens jd_text) \<inter> set (tokens resume_md) \<noteq> {} then 1 else 0))"
    unfolding t ov [symmetric] k_def s_def n_def by (rule total_of_exact [OF ab])+
  then show ?thesis using r bd
    by (intro exI [of _ t] exI [of _ bd] exI [of _ k] exI [of _ s] exI [of _ n]) simp
qed

theorem overall_score_formula_witness:
  "set (tokens ''Python developer'') \<noteq> {}
   \<and> (\<exists>t bd k s n. compute_fit_score ''Python developer'' ''Python'' = Inr (t, bd)
           \<and> bd ''keyword_coverage'' = Some k \<and> bd ''seniority'' = Some s
           \<and> bd ''numeric'' = Some n \<and> bd ''overall'' = Some t
           \<and> t = round_half_even
                 (of_int k * (4 / 10) + of_int s * (2 / 10) + of_int n * (1 / 10)
                  + 100 * (3 / 10)
                    * (if set (tokens ''Python developer'') \<inter> set (tokens ''Python'') \<noteq> {}
                       then 1 else 0)))"
proof -
  have ne: "set (tokens ''Python developer'') \<noteq> {}" by (simp add: python_tokens)
  from overall_score_formula [OF ne, of "''Python''"] ne show ?thesis by blast
qed

text \<open>
  C2. For the job text "Senior Python Engineer. 5 years experience with Python and AWS
  required." and the resume "Senior engineer with 6 years experience in Python and AWS."
  the scorer returns the total 81 with keyword coverage 57, seniority 100 and numeric 80:
  the job tokens are senior, python, engineer., years, experience, aws and required. (the
  full stop is a token character), and four of these seven are resume tokens.
\<close>

theorem scenario_score:
  "compute_fit_score
     ''Senior Python Engineer. 5 years experience with Python and AWS required.''
     ''Senior engineer with 6 years experience in Python and AWS.''
   = Inr (81, [''keyword_coverage'' \<mapsto> 57, ''seniority'' \<mapsto> 100, ''numeric'' \<mapsto> 80,
               ''overall'' \<mapsto> 81])
   \<and> set (tokens ''Senior Python Engineer. 5 years experience with Python and AWS required.'')
       = {''senior'', ''python'', ''engineer.'', ''years'', ''experience'', ''aws'', ''required.''}
   \<and> set (tokens ''Senior engineer with 6 years experience in Python and AWS.'')
       = {''senior'', ''engineer'', ''years'', ''experience'', ''python'', ''aws.''}"
  using scenario_value scenario_tokens unfolding scenario_job_def scenario_resume_def
  by auto

theorem scenario_score_counterexample:
  "compute_fit_score
     ''Senior Python Engineer. 5 years experience with Python and AWS required.''
     ''Senior engineer with 6 years experience in Python and AWS.''
   \<noteq> Inr (92, [''keyword_coverage'' \<mapsto> 86, ''seniority'' \<mapsto> 100, ''numeric'' \<mapsto> 80,
               ''overall'' \<mapsto> 92])"
  using scenario_value unfolding scenario_job_def scenario_resume_def by simp




text \<open>
  C4. When the token set of the job text is empty, in particular for the empty job text, the
  scorer returns the total 0 and the empty breakdown, whatever the resume text; and on no
  pair of texts does the scorer raise \<open>ZeroDivisionError\<close>.
\<close>

theorem empty_job_tokens_score_zero:
  "(set (tokens jd_text) = {} \<longrightarrow> compute_fit_score jd_text resume_md = Inr (0, Map.empty))
   \<and> compute_fit_score [] resume_md = Inr (0, Map.empty)
   \<and> (\<forall>jd res. compute_fit_score jd res \<noteq> Inl ZeroDivisionError)"
proof (intro conjI impI allI)
  assume "set (tokens jd_text) = {}"
  then show "compute_fit_score jd_text resume_md = Inr (0, Map.empty)"
    by (rule compute_fit_score_empty)
next
  show "compute_fit_score [] resume_md = Inr (0, Map.empty)"
    by (simp add: compute_fit_score_empty tokens_empty_text)
next
  fix jd res
  obtain r where "compute_fit_score jd res = Inr r"
    using compute_fit_score_no_exception by blast
  then show "compute_fit_score jd res \<noteq> Inl ZeroDivisionError" by simp
qed

theorem empty_job_tokens_score_zero_witness:
  "set (tokens ''C, the 42 R'') = {}
   \<and> compute_fit_score ''C, the 42 R'' ''Python developer'' = Inr (0, Map.empty)"
  using empty_job_tokens_score_zero [of "''C, the 42 R''" "''Python developer''"]
  by (simp add: tokens_no_words)

text \<open>
  C5. With a non-empty job token set, the seniority sub-score is 100 when the job tokens
  contain none of the ten seniority terms, or when some seniority term of the job tokens
  is also a resume token, and 40 otherwise. The job text "Senior Engineer role" against
  the resume "Junior Developer" scores 40.
\<close>

theorem seniority_subscore:
  "(set (tokens jd_text) \<noteq> {} \<longrightarrow>
      (\<exists>t bd. compute_fit_score jd_text resume_md = Inr (t, bd)
         \<and> bd ''seniority'' = Some
              (if (\<forall>s \<in> {''intern'', ''junior'', ''associate'', ''mid'', ''senior'', ''lead'',
                           ''principal'', ''director'', ''vp'', ''chief''}.
                     s \<notin> set (tokens jd_text))
                  \<or> (\<exists>s \<in> {''intern'', ''junior'', ''associate'', ''mid'', ''senior'', ''lead'',
                           ''principal'', ''director'', ''vp'', ''chief''}.
                     s \<in> set (tokens jd_text) \<and> s \<in> set (tokens resume_md))
               then 100 else 40)))
   \<and> (\<exists>t bd. compute_fit_score ''Senior Engineer role'' ''Junior Developer'' = Inr (t, bd)
         \<and> bd ''seniority'' = Some 40)"
proof (intro conjI impI)
  assume ne: "set (tokens jd_text) \<noteq> {}"
  from scorer_breakdown [OF ne, of resume_md]
  obtain t bd where "compute_fit_score jd_text resume_md = Inr (t, bd)"
    and "bd ''seniority'' = Some (seniority_of (set (tokens jd_text)) (set (tokens resume_md)))"
    by metis
  then have "compute_fit_score jd_text resume_md = Inr (t, bd)
         \<and> bd ''seniority'' = Some
              (if (\<forall>s \<in> {''intern'', ''junior'', ''associate'', ''mid'', ''senior'', ''lead'',
                           ''principal'', ''director'', ''vp'', ''chief''}.
                     s \<notin> set (tokens jd_text))
                  \<or> (\<exists>s \<in> {''intern'', ''junior'', ''associate'', ''mid'', ''senior'', ''lead'',
                           ''principal'', ''director'', ''vp'', ''chief''}.
                     s \<in> set (tokens jd_text) \<and> s \<in> set (tokens resume_md))
               then 100 else 40)"
    unfolding SENIORITY_terms [symmetric] by (simp only: seniority_of_iff)
  then show "\<exists>t bd. compute_fit_score jd_text resume_md = Inr (t, bd)
         \<and> bd ''seniority'' = Some
              (if (\<forall>s \<in> {''intern'', ''junior'', ''associate'', ''mid'', ''senior'', ''lead'',
                           ''principal'', ''director'', ''vp'', ''chief''}.
                     s \<notin> set (tokens jd_text))
                  \<or> (\<exists>s \<in> {''intern'', ''junior'', ''associate'', ''mid'', ''senior'', ''lead'',
                           ''principal'', ''director'', ''vp'', ''chief''}.
                     s \<in> set (tokens jd_text) \<and> s \<in> set (tokens resume_md))
               then 100 else 40)"
    by (intro exI [of _ t] exI [of _ bd])
next
  have "set (tokens ''Senior Engineer role'') \<noteq> {}" by (simp add: senior_junior_tokens)
  from scorer_breakdown [OF this, of "''Junior Developer''"]
  obtain t bd where "compute_fit_score ''Senior Engineer role'' ''Junior Developer'' = Inr (t, bd)"
    and "bd ''seniority'' = Some (seniority_of (set (tokens ''Senior Engineer role''))
           (set (tokens ''Junior Developer'')))"
    by metis
  then have "compute_fit_score ''Senior Engineer role'' ''Junior Developer'' = Inr (t, bd)
         \<and> bd ''seniority'' = Some 40"
    by (simp only: senior_junior_seniority)
  then show "\<exists>t bd. compute_fit_score ''Senior Engineer role'' ''Junior Developer'' = Inr (t, bd)
         \<and> bd ''seniority'' = Some 40"
    by (intro exI [of _ t] exI [of _ bd])
qed

theorem seniority_subscore_witness:
  "set (tokens ''Senior Engineer role'') \<noteq> {}
   \<and> ''senior'' \<in> set (tokens ''Senior Engineer role'')
   \<and> ''senior'' \<in> set (tokens ''Senior Developer'')
   \<and> (\<exists>t bd. compute_fit_score ''Senior Engineer role'' ''Senior Developer'' = Inr (t, bd)
         \<and> bd ''seniority'' = Some 100)"
  using seniority_subscore [of "''Senior Engineer role''" "''Senior Developer''"]
  by (simp add: senior_junior_tokens)

text \<open>
  C6. With a non-empty job token set, the numeric sub-score is 100 when the job text holds
  no years figure: a digit, then one or more characters of white space, then the letters
  of the word years in any letter case, whatever follows them, as in "5 years",
  "12  YEARS" or "2019 yearsago", and not in "5years". Otherwise it is 80 when the resume
  text holds such a figure, and 30 when it holds none. The figure is not the digit
  sequence followed by the word years: "Python 5years" has one of these and scores 100
  against "Python 3 years"; "Python since 2019 yearsago" has none and scores 30 against
  "Python".
\<close>

theorem numeric_subscore:
  assumes "set (tokens jd_text) \<noteq> {}"
  shows "\<exists>t bd. compute_fit_score jd_text resume_md = Inr (t, bd)
           \<and> bd ''numeric'' = Some
                (if \<not> years_figure jd_text then 100
                 else if years_figure resume_md then 80 else 30)"
proof -
  from scorer_breakdown [OF assms, of resume_md]
  obtain t bd where "compute_fit_score jd_text resume_md = Inr (t, bd)"
    and "bd ''numeric'' = Some (numeric_of jd_text resume_md)"
    by metis
  then have "compute_fit_score jd_text resume_md = Inr (t, bd)
           \<and> bd ''numeric'' = Some
                (if \<not> years_figure jd_text then 100
                 else if years_figure resume_md then 80 else 30)"
    by (simp only: numeric_of_figure)
  then show ?thesis by (intro exI [of _ t] exI [of _ bd])
qed

theorem numeric_subscore_witness:
  "set (tokens ''Python, 5 Years min.'') \<noteq> {}
   \<and> years_figure ''Python, 5 Years min.''
   \<and> \<not> years_figure ''Python since 2019''
   \<and> years_figure ''I have 12  YEARS of Python''
   \<and> (\<exists>t bd. compute_fit_score ''Python, 5 Years min.'' ''Python since 2019'' = Inr (t, bd)
         \<and> bd ''numeric'' = Some 30)
   \<and> (\<exists>t bd. compute_fit_score ''Python, 5 Years min.'' ''I have 12  YEARS of Python'' = Inr (t, bd)
         \<and> bd ''numeric'' = Some 80)"
proof -
  have ne: "set (tokens ''Python, 5 Years min.'') \<noteq> {}" by (simp add: years_examples)
  have m: "years_figure ''Python, 5 Years min.''"
    "\<not> years_figure ''Python since 2019''"
    "years_figure ''I have 12  YEARS of Python''"
    unfolding findall_years_iff_figure [symmetric] by (simp_all add: years_examples)
  show ?thesis
    using ne m numeric_subscore [OF ne, of "''Python since 2019''"]
      numeric_subscore [OF ne, of "''I have 12  YEARS of Python''"]
    by simp
qed

theorem numeric_subscore_counterexample:
  "spec_mentions_years ''Python 5years''
   \<and> spec_mentions_years ''Python 3 years''
   \<and> compute_fit_score ''Python 5years'' ''Python 3 years''
       = Inr (100, [''keyword_coverage'' \<mapsto> 100, ''seniority'' \<mapsto> 100, ''numeric'' \<mapsto> 100,
                    ''overall'' \<mapsto> 100])
   \<and> \<not> spec_mentions_years ''Python since 2019 yearsago''
   \<and> \<not> spec_mentions_years ''Python''
   \<and> compute_fit_score ''Python since 2019 yearsago'' ''Python''
       = Inr (66, [''keyword_coverage'' \<mapsto> 33, ''seniority'' \<mapsto> 100, ''numeric'' \<mapsto> 30,
                   ''overall'' \<mapsto> 66])"
  by (intro conjI) (fact spec_years_examples years_counterexample_values)+

text \<open>
  C7. On every pair of texts the scorer returns a total between 0 and 100; the flat bonus
  of 30 for an overlap never takes it above 100.
\<close>

theorem overall_score_range:
  "\<exists>t bd. compute_fit_score jd_text resume_md = Inr (t, bd) \<and> 0 \<le> t \<and> t \<le> 100"
proof (cases "set (tokens jd_text) = {}")
  case True
  then show ?thesis by (simp add: compute_fit_score_empty)
next
  case False
  define a where "a = card (set (tokens jd_text) \<inter> set (tokens resume_md))"
  define b where "b = card (set (tokens jd_text))"
  have ab: "a \<le> b" "0 < b"
    using False unfolding a_def b_def by (simp_all add: overlap_card card_gt_0_iff)
  from scorer_breakdown [OF False, of resume_md]
  obtain t bd where r: "compute_fit_score jd_text resume_md = Inr (t, bd)"
    and t: "t = total_of (keyword_score_of a b)
                  (seniority_of (set (tokens jd_text)) (set (tokens resume_md)))
                  (numeric_of jd_text resume_md) a"
    unfolding a_def b_def by metis
  have "0 \<le> t" "t \<le> 100" unfolding t by (rule total_of_exact [OF ab])+
  then show ?thesis using r by (intro exI [of _ t] exI [of _ bd]) simp
qed

text \<open>
  C10. Every token starts with a letter and has at least two characters; so a word of a
  single character, such as C or R, is never a token, and no token set contains one. A
  single character with no character of the token class (a letter, a digit or one of
  \<open>+ . # / -\<close>) directly before it and none directly after it can be taken out of a text:
  the tokens stay the same, and so do the keyword coverage and the seniority sub-score of
  the text against any other text, on either side. A one-letter word directly followed by
  a character of the token class is a token together with it: "We need C." and "I know C."
  share the token c., which gives the keyword coverage 50 and the bonus for an overlap.
\<close>

theorem tokens_start_with_letter_length_two:
  "(\<forall>t \<in> set (tokens text). 2 \<le> length t \<and> is_letter (hd t))
   \<and> (\<forall>c. [c] \<notin> set (tokens text))
   \<and> tokens ''C'' = [] \<and> tokens ''R'' = []
   \<and> ((pre = [] \<or> \<not> is_token_char (last pre)) \<and> (post = [] \<or> \<not> is_token_char (hd post)) \<longrightarrow>
        tokens (pre @ [c] @ post) = tokens (pre @ post)
        \<and> (\<exists>t bd t' bd'. compute_fit_score (pre @ [c] @ post) other = Inr (t, bd)
              \<and> compute_fit_score (pre @ post) other = Inr (t', bd')
              \<and> bd ''keyword_coverage'' = bd' ''keyword_coverage''
              \<and> bd ''seniority'' = bd' ''seniority'')
        \<and> (\<exists>t bd t' bd'. compute_fit_score other (pre @ [c] @ post) = Inr (t, bd)
              \<and> compute_fit_score other (pre @ post) = Inr (t', bd')
              \<and> bd ''keyword_coverage'' = bd' ''keyword_coverage''
              \<and> bd ''seniority'' = bd' ''seniority''))"
proof (intro conjI ballI allI impI)
  fix t assume "t \<in> set (tokens text)"
  then obtain c d ds where "t = c # d # ds" "is_lower c" using tokens_shape by blast
  then show "2 \<le> length t" "is_letter (hd t)" by (simp_all add: is_letter_def)
next
  fix c
  show "[c] \<notin> set (tokens text)" using tokens_shape [of "[c]" "text"] by auto
next
  show "tokens ''C'' = []" "tokens ''R'' = []" by (simp_all add: tokens_def)
next
  assume "(pre = [] \<or> \<not> is_token_char (last pre)) \<and> (post = [] \<or> \<not> is_token_char (hd post))"
  then have e: "tokens (pre @ [c] @ post) = tokens (pre @ post)"
    by (intro tokens_single) simp_all
  then show "tokens (pre @ [c] @ post) = tokens (pre @ post)" .
  from e have s: "set (tokens (pre @ [c] @ post)) = set (tokens (pre @ post))" by simp
  show "\<exists>t bd t' bd'. compute_fit_score (pre @ [c] @ post) other = Inr (t, bd)
              \<and> compute_fit_score (pre @ post) other = Inr (t', bd')
              \<and> bd ''keyword_coverage'' = bd' ''keyword_coverage''
              \<and> bd ''seniority'' = bd' ''seniority''"
    using s refl by (rule same_tokens_same_scores)
  show "\<exists>t bd t' bd'. compute_fit_score other (pre @ [c] @ post) = Inr (t, bd)
              \<and> compute_fit_score other (pre @ post) = Inr (t', bd')
              \<and> bd ''keyword_coverage'' = bd' ''keyword_coverage''
              \<and> bd ''seniority'' = bd' ''seniority''"
    using refl s by (rule same_tokens_same_scores)
qed

theorem tokens_start_with_letter_length_two_witness:
  "''c++'' \<in> set (tokens ''C++ and R'') \<and> 2 \<le> length ''c++'' \<and> is_letter (hd ''c++'')
   \<and> \<not> is_token_char (last ''We need '') \<and> \<not> is_token_char (hd '' now'')
   \<and> tokens (''We need '' @ [CHR ''C''] @ '' now'') = tokens (''We need '' @ '' now'')
   \<and> tokens (''We need '' @ [CHR ''C''] @ '' now'') = [''need'', ''now'']
   \<and> (\<exists>t bd t' bd'.
         compute_fit_score (''We need '' @ [CHR ''C''] @ '' now'') ''I know C'' = Inr (t, bd)
         \<and> compute_fit_score (''We need '' @ '' now'') ''I know C'' = Inr (t', bd')
         \<and> bd ''keyword_coverage'' = bd' ''keyword_coverage''
         \<and> bd ''seniority'' = bd' ''seniority'')"
proof -
  have sep: "\<not> is_token_char (last ''We need '')" "\<not> is_token_char (hd '' now'')"
    by (simp_all add: space_not_token_char)
  have tk: "tokens (''We need '' @ [CHR ''C''] @ '' now'') = [''need'', ''now'']"
    by code_simp
  have m: "''c++'' \<in> set (tokens ''C++ and R'')" by (simp add: tokens_cpp_example)
  note th = tokens_start_with_letter_length_two [of "''C++ and R''" "''We need ''" "'' now''"
      "CHR ''C''" "''I know C''"]
  from th m have a: "2 \<le> length ''c++'' \<and> is_letter (hd ''c++'')" by blast
  from th sep have b: "tokens (''We need '' @ [CHR ''C''] @ '' now'') = tokens (''We need '' @ '' now'')
    \<and> (\<exists>t bd t' bd'.
         compute_fit_score (''We need '' @ [CHR ''C''] @ '' now'') ''I know C'' = Inr (t, bd)
         \<and> compute_fit_score (''We need '' @ '' now'') ''I know C'' = Inr (t', bd')
         \<and> bd ''keyword_coverage'' = bd' ''keyword_coverage''
         \<and> bd ''seniority'' = bd' ''seniority'')"
    by blast
  show ?thesis using m a sep b tk by (simp only: simp_thms)
qed

theorem single_letter_word_counterexample:
  "tokens ''We need C.'' = [''need'', ''c.'']
   \<and> tokens ''I know C.'' = [''know'', ''c.'']
   \<and> compute_fit_score ''We need C.'' ''I know C.''
       = Inr (80, [''keyword_coverage'' \<mapsto> 50, ''seniority'' \<mapsto> 100, ''numeric'' \<mapsto> 100,
                   ''overall'' \<mapsto> 80])
   \<and> tokens ''We need'' = [''need'']
   \<and> tokens ''I know'' = [''know'']
   \<and> compute_fit_score ''We need'' ''I know''
       = Inr (30, [''keyword_coverage'' \<mapsto> 0, ''seniority'' \<mapsto> 100, ''numeric'' \<mapsto> 100,
                   ''overall'' \<mapsto> 30])"
  by (intro conjI) (fact single_letter_values single_letter_scores)+

section \<open>Properties of the text extractor\<close>

text \<open>
  C9. On the page of one paragraph of 500 characters and two shorter ones, the fallback of
  \<open>replit_app.py\<close> returns the text of the whole page, 517 characters, and not the text of
  the long paragraph: \<open>get_text\<close> joins the strings of the page with single line feeds,
  so the split at blank lines leaves the text in one block.
\<close>

theorem replit_fallback_returns_whole_page:
  "replit_fetch_job_description_fallback fixture_page
     = Inr (replicate 500 CHR ''A'' @ '' Apply now Remote'')
   \<and> replit_fetch_job_description_fallback fixture_page \<noteq> Inr (replicate 500 CHR ''A'')"
  by code_simp

end
